theory Spec2Isabelle
  imports Complex_Main "HOL-Library.Product_Lexorder" "HOL-Library.Sublist"
begin

section \<open>Common modelling conventions\<close>

text \<open>
  The two source files, \<^verbatim>\<open>interpollation_filling.py\<close> and \<^verbatim>\<open>plotcomp.py\<close>, work on
  pandas frames and series. A frame or series is modelled by the list of its rows in
  index order, each row a pair of the index label and the value of one numeric column
  (pandas treats the numeric columns of a frame independently of each other in every
  operation used here). A float is a \<^typ>\<open>real\<close>, and a cell that can be \<^verbatim>\<open>NaN\<close> is a
  \<^typ>\<open>real option\<close> with \<^term>\<open>None\<close> for \<^verbatim>\<open>NaN\<close>. Exceptions are values of \<open>py_error\<close>,
  returned on the left of a sum.

  The cleaning script's values are specified up to floating tolerance, and its
  arithmetic is modelled as exact. The simulation is specified on exact amounts, so
  there every arithmetic operation of the code is the exact operation followed by the
  rounding \<open>rnd\<close> of its result to a float. The rounding is a parameter of the model:
  what is proved holds for every rounding, or for every rounding with the properties a
  theorem assumes (rounding to the nearest float is monotone and leaves floats, among
  them zero, unchanged). Overflow and \<^verbatim>\<open>NaN\<close> prices are left out.
\<close>

datatype py_error = KeyError | ValueError | IndexError | FrequencyError

section \<open>\<^verbatim>\<open>interpollation_filling.py\<close>\<close>

text \<open>
  Dates of the cleaning script are calendar days; they are modelled by their day number
  (an \<^typ>\<open>int\<close>), so that \<^verbatim>\<open>pd.date_range(start, end, freq='D')\<close> is the interval
  \<open>[start..end]\<close>.
\<close>

type_synonym day = int
type_synonym frame = "(day \<times> real) list"
type_synonym cell_frame = "(day \<times> real option) list"

subsection \<open>\<^verbatim>\<open>handle_duplicates\<close>\<close>

text \<open>\<^verbatim>\<open>df.groupby(date_col).mean()\<close>: one row per distinct key, keys sorted ascending
  (the default \<^verbatim>\<open>sort=True\<close>), the value being the mean of the group.\<close>

definition group_mean :: "real list \<Rightarrow> real" where
  "group_mean vs = sum_list vs / real (length vs)"

definition group_of :: "frame \<Rightarrow> day \<Rightarrow> real list" where
  "group_of df d = map snd (filter (\<lambda>r. fst r = d) df)"

definition groupby_mean :: "frame \<Rightarrow> frame" where
  "groupby_mean df = map (\<lambda>d. (d, group_mean (group_of df d))) (sort (remdups (map fst df)))"

text \<open>\<^verbatim>\<open>df[date_col].duplicated(keep=False).sum()\<close>: the number of rows whose date occurs
  more than once; it is printed and logged.\<close>

definition num_duplicates :: "frame \<Rightarrow> nat" where
  "num_duplicates df = length (filter (\<lambda>r. 1 < length (group_of df (fst r))) df)"

definition handle_duplicates :: "frame \<Rightarrow> frame" where
  "handle_duplicates df = (if \<not> distinct (map fst df) then groupby_mean df else df)"

text \<open>The dates of a frame in the order of their first appearance: what the
  specification's ``relative order of distinct dates'' refers to.\<close>

fun first_appearance :: "'k list \<Rightarrow> 'k list \<Rightarrow> 'k list" where
  "first_appearance seen [] = []"
| "first_appearance seen (k # ks) =
     (if k \<in> set seen then first_appearance seen ks else k # first_appearance (k # seen) ks)"

definition dates_in_order :: "frame \<Rightarrow> day list" where
  "dates_in_order df = first_appearance [] (map fst df)"

subsection \<open>\<^verbatim>\<open>resample_and_fill\<close>\<close>

text \<open>\<^verbatim>\<open>ffill\<close> carries the last valid value forward; leading \<^verbatim>\<open>NaN\<close>s stay.\<close>

fun ffill_from :: "real option \<Rightarrow> real option list \<Rightarrow> real option list" where
  "ffill_from prev [] = []"
| "ffill_from prev (None # xs) = prev # ffill_from prev xs"
| "ffill_from prev (Some v # xs) = Some v # ffill_from (Some v) xs"

definition ffill :: "real option list \<Rightarrow> real option list" where
  "ffill xs = ffill_from None xs"

text \<open>\<^verbatim>\<open>bfill\<close> takes the next valid value; trailing \<^verbatim>\<open>NaN\<close>s stay.\<close>

fun bfill :: "real option list \<Rightarrow> real option list" where
  "bfill [] = []"
| "bfill (Some v # xs) = Some v # bfill xs"
| "bfill (None # xs) = (case bfill xs of [] \<Rightarrow> [None] | y # ys \<Rightarrow> y # y # ys)"

text \<open>
  \<^verbatim>\<open>interpolate(method='linear')\<close> ignores the index and treats the rows as equally
  spaced: a \<^verbatim>\<open>NaN\<close> at position \<open>k\<close> between the nearest valid positions \<open>i < k < j\<close>
  becomes the value on the straight line through them. With the default forward
  direction, \<^verbatim>\<open>NaN\<close>s before the first valid value stay, and \<^verbatim>\<open>NaN\<close>s after the last valid
  value repeat it.
\<close>

definition prev_valid :: "real option list \<Rightarrow> nat \<Rightarrow> nat option" where
  "prev_valid xs k = find (\<lambda>i. xs ! i \<noteq> None) (rev [0..<k])"

definition next_valid :: "real option list \<Rightarrow> nat \<Rightarrow> nat option" where
  "next_valid xs k = find (\<lambda>j. xs ! j \<noteq> None) [Suc k..<length xs]"

definition interp_at :: "real option list \<Rightarrow> nat \<Rightarrow> real option" where
  "interp_at xs k =
     (case xs ! k of
        Some v \<Rightarrow> Some v
      | None \<Rightarrow>
         (case prev_valid xs k of
            None \<Rightarrow> None
          | Some i \<Rightarrow>
             (case next_valid xs k of
                None \<Rightarrow> xs ! i
              | Some j \<Rightarrow>
                 (case (xs ! i, xs ! j) of
                    (Some v1, Some v2) \<Rightarrow>
                      Some (v1 + (v2 - v1) * (real k - real i) / (real j - real i))
                  | _ \<Rightarrow> None))))"

definition interpolate_linear :: "real option list \<Rightarrow> real option list" where
  "interpolate_linear xs = map (interp_at xs) [0..<length xs]"

text \<open>\<^verbatim>\<open>fillna(df.mean())\<close>: the mean of the valid values of the column replaces
  each \<^verbatim>\<open>NaN\<close>.\<close>

definition valid_values :: "real option list \<Rightarrow> real list" where
  "valid_values xs = concat (map (\<lambda>x. case x of None \<Rightarrow> [] | Some v \<Rightarrow> [v]) xs)"

definition fillna_mean :: "real option list \<Rightarrow> real option list" where
  "fillna_mean xs =
     (if valid_values xs = [] then xs
      else map (\<lambda>x. case x of None \<Rightarrow> Some (group_mean (valid_values xs)) | Some v \<Rightarrow> Some v) xs)"

text \<open>The four branches on \<^verbatim>\<open>fill_method\<close>; any other string raises \<^verbatim>\<open>ValueError\<close>.\<close>

definition apply_fill_method :: "string \<Rightarrow> real option list \<Rightarrow> py_error + real option list" where
  "apply_fill_method fill_method col =
     (if fill_method = ''ffill'' then Inr (ffill col)
      else if fill_method = ''bfill'' then Inr (bfill col)
      else if fill_method = ''linear'' then Inr (interpolate_linear col)
      else if fill_method = ''mean'' then Inr (fillna_mean col)
      else Inl ValueError)"

text \<open>
  \<^verbatim>\<open>df.reindex(all_dates)\<close>: the cell the frame has at each date, and \<^verbatim>\<open>NaN\<close> at a date
  the frame does not have. A cell of the frame given to \<^verbatim>\<open>resample_and_fill\<close> can
  itself be \<^verbatim>\<open>NaN\<close> (an empty cell of the file read); the frames with known cells
  only, on which \<open>handle_duplicates\<close> is modelled, are the ones whose cells are all
  \<open>Some\<close>.
\<close>

definition reindex :: "cell_frame \<Rightarrow> day list \<Rightarrow> real option list" where
  "reindex df all_dates =
     map (\<lambda>d. case map_of df d of None \<Rightarrow> None | Some cell \<Rightarrow> cell) all_dates"

text \<open>
  \<^verbatim>\<open>resample_and_fill\<close>. On an empty frame the minimum of the index is \<^verbatim>\<open>NaT\<close> and
  \<^verbatim>\<open>pd.date_range\<close> raises; \<^verbatim>\<open>reindex\<close> raises on an index with duplicate labels. Both
  are \<^verbatim>\<open>ValueError\<close>s and come before the test of \<^verbatim>\<open>fill_method\<close>. The last two passes
  are those of line 74: \<^verbatim>\<open>bfill\<close>, then \<^verbatim>\<open>ffill\<close>.
\<close>

definition resample_and_fill :: "cell_frame \<Rightarrow> string \<Rightarrow> py_error + cell_frame" where
  "resample_and_fill df fill_method =
     (if df = [] then Inl ValueError
      else if \<not> distinct (map fst df) then Inl ValueError
      else
        (let all_dates = [Min (set (map fst df)) .. Max (set (map fst df))];
             df_resampled = reindex df all_dates
         in case apply_fill_method fill_method df_resampled of
              Inl e \<Rightarrow> Inl e
            | Inr df_filled \<Rightarrow> Inr (zip all_dates (ffill (bfill df_filled)))))"

section \<open>\<^verbatim>\<open>plotcomp.py\<close>\<close>

subsection \<open>\<^verbatim>\<open>clean_data\<close>\<close>

text \<open>
  \<^verbatim>\<open>drop_duplicates(subset='Date')\<close> keeps, in their order, the rows whose \<^verbatim>\<open>Date\<close> cell
  has not occurred in an earlier row (\<^verbatim>\<open>keep='first'\<close> is the default). The first
  argument is the list of the cells seen so far.
\<close>

fun drop_duplicates_from :: "'k list \<Rightarrow> ('k \<times> 'v) list \<Rightarrow> ('k \<times> 'v) list" where
  "drop_duplicates_from seen [] = []"
| "drop_duplicates_from seen (r # rs) =
     (if fst r \<in> set seen then drop_duplicates_from seen rs
      else r # drop_duplicates_from (fst r # seen) rs)"

definition drop_duplicates :: "('k \<times> 'v) list \<Rightarrow> ('k \<times> 'v) list" where
  "drop_duplicates rows = drop_duplicates_from [] rows"

text \<open>\<^verbatim>\<open>set_index\<close> followed by \<^verbatim>\<open>pd.to_datetime\<close> on the index: every \<^verbatim>\<open>Date\<close> cell is
  parsed, and a cell that does not parse raises. The parser is a parameter.\<close>

definition set_index_datetime ::
    "('k \<Rightarrow> 'd option) \<Rightarrow> ('k \<times> 'v) list \<Rightarrow> py_error + ('d \<times> 'v) list" where
  "set_index_datetime to_datetime rows =
     (case those (map (\<lambda>r. map_option (\<lambda>d. (d, snd r)) (to_datetime (fst r))) rows) of
        None \<Rightarrow> Inl ValueError
      | Some rows' \<Rightarrow> Inr rows')"

text \<open>One frame of \<^verbatim>\<open>clean_data\<close>. A raw frame is \<^term>\<open>None\<close> when it has no \<^verbatim>\<open>Date\<close>
  column, and otherwise the list of its rows, each a \<^verbatim>\<open>Date\<close> cell with the rest.\<close>

definition clean_frame ::
    "('k \<Rightarrow> 'd option) \<Rightarrow> ('k \<times> 'v) list option \<Rightarrow> py_error + ('d \<times> 'v) list" where
  "clean_frame to_datetime df =
     (case df of
        None \<Rightarrow> Inl KeyError
      | Some rows \<Rightarrow> set_index_datetime to_datetime (drop_duplicates rows))"

definition clean_data ::
    "('k \<Rightarrow> 'd option) \<Rightarrow> ('k \<times> 'v) list option \<Rightarrow> ('k \<times> 'w) list option
      \<Rightarrow> py_error + (('d \<times> 'v) list \<times> ('d \<times> 'w) list)" where
  "clean_data to_datetime gold_df snp500_df =
     (case clean_frame to_datetime gold_df of
        Inl e \<Rightarrow> Inl e
      | Inr gold \<Rightarrow>
         (case clean_frame to_datetime snp500_df of
            Inl e \<Rightarrow> Inl e
          | Inr snp \<Rightarrow> Inr (gold, snp)))"

subsection \<open>Timestamps and \<^verbatim>\<open>resample(...).last()\<close>\<close>

text \<open>
  A timestamp of the simulation is modelled by its calendar fields (year, month, day),
  ordered lexicographically. The monthly frames come from \<^verbatim>\<open>resample('ME')\<close>, so their
  indexes are strictly increasing; the model of \<^verbatim>\<open>.loc[start_date:]\<close> and of
  \<^verbatim>\<open>.loc[date]\<close> below is the one of pandas on such an index.
\<close>

type_synonym date = "nat \<times> nat \<times> nat"
type_synonym prices = "(date \<times> real) list"
type_synonym series = "(date \<times> real option) list"

definition is_leap :: "nat \<Rightarrow> bool" where
  "is_leap y = (y mod 4 = 0 \<and> (y mod 100 \<noteq> 0 \<or> y mod 400 = 0))"

definition days_in_month :: "nat \<Rightarrow> nat \<Rightarrow> nat" where
  "days_in_month y m =
     (if m = 2 then (if is_leap y then 29 else 28)
      else if m = 4 \<or> m = 6 \<or> m = 9 \<or> m = 11 then 30 else 31)"

text \<open>
  The offsets used are month end, quarter end and year end (December). A period is
  \<open>p\<close> calendar months (1, 3 or 12); \<open>period_of\<close> numbers the period a date falls
  in and \<open>period_end\<close> is the last day of a period, the label pandas gives its bin
  (these offsets are closed and labelled on the right).
\<close>

definition period_of :: "nat \<Rightarrow> date \<Rightarrow> nat" where
  "period_of p d = (case d of (y, m, _) \<Rightarrow> (12 * y + (m - 1)) div p)"

definition period_end :: "nat \<Rightarrow> nat \<Rightarrow> date" where
  "period_end p k =
     (let mi = (k + 1) * p - 1; y = mi div 12; m = mi mod 12 + 1
      in (y, m, days_in_month y m))"

text \<open>\<^verbatim>\<open>.last()\<close> of a bin: its last value that is not \<^verbatim>\<open>NaN\<close>, and \<^verbatim>\<open>NaN\<close> for a bin
  without one.\<close>

definition last_valid :: "real option list \<Rightarrow> real option" where
  "last_valid vs = (case filter (\<lambda>x. x \<noteq> None) (rev vs) of [] \<Rightarrow> None | x # _ \<Rightarrow> x)"

text \<open>
  \<^verbatim>\<open>series.resample(freq).last()\<close> for the offset of \<open>n\<close> periods of \<open>p\<close> months. The
  first bin ends at the first period end on or after the smallest timestamp, each
  further bin \<open>n\<close> periods later, up to the first one that reaches the largest
  timestamp; a bin without rows is kept, with \<^verbatim>\<open>NaN\<close>. An empty series stays empty.
\<close>

definition bin_index :: "nat \<Rightarrow> nat \<Rightarrow> nat \<Rightarrow> date \<Rightarrow> nat" where
  "bin_index n p k0 d = (period_of p d - k0 + n - 1) div n"

definition resample_last :: "nat \<times> nat \<Rightarrow> series \<Rightarrow> series" where
  "resample_last off s =
     (case off of (n, p) \<Rightarrow>
        if s = [] then []
        else
          (let k0 = period_of p (Min (set (map fst s)));
               k1 = period_of p (Max (set (map fst s)));
               nbins = (k1 - k0 + n - 1) div n + 1
           in map (\<lambda>j. (period_end p (k0 + j * n),
                         last_valid (map snd (filter (\<lambda>r. bin_index n p k0 (fst r) = j) s))))
                  [0..<nbins]))"

text \<open>The frequency strings pandas is given: \<^verbatim>\<open>'M'\<close>, \<^verbatim>\<open>'Q'\<close>, \<^verbatim>\<open>'2Q'\<close> and \<^verbatim>\<open>'A'\<close>.\<close>

definition to_offset :: "(string \<times> (nat \<times> nat)) list" where
  "to_offset = [(''M'', (1, 1)), (''Q'', (1, 3)), (''2Q'', (2, 3)), (''A'', (1, 12))]"

text \<open>\<^verbatim>\<open>series.resample(rule).last()\<close> where \<open>rule\<close> is the result of a \<^verbatim>\<open>dict.get\<close>:
  \<^verbatim>\<open>resample(None)\<close> raises.\<close>

definition resample_rule_last :: "string option \<Rightarrow> series \<Rightarrow> py_error + series" where
  "resample_rule_last rule s =
     (case rule of
        None \<Rightarrow> Inl FrequencyError
      | Some r \<Rightarrow>
         (case map_of to_offset r of
            None \<Rightarrow> Inl FrequencyError
          | Some off \<Rightarrow> Inr (resample_last off s)))"

subsection \<open>\<^verbatim>\<open>calculate_dca\<close>\<close>

text \<open>The variables of the loop that live across iterations.\<close>

record dca_state =
  gold_shares :: real
  snp500_shares :: real
  total_invested :: real
  total_portfolio_values :: "real list"
  cumulative_invested :: "real list"

definition init_state :: dca_state where
  "init_state = \<lparr>gold_shares = 0, snp500_shares = 0, total_invested = 0,
                 total_portfolio_values = [], cumulative_invested = []\<rparr>"

text \<open>The body of the loop for a date present in both indexes (lines 123 to 142), each
  operation rounded by \<open>rnd\<close>.\<close>

definition dca_step ::
    "(real \<Rightarrow> real) \<Rightarrow> real \<Rightarrow> real \<Rightarrow> real \<Rightarrow> real \<Rightarrow> real \<Rightarrow> dca_state \<Rightarrow> dca_state" where
  "dca_step rnd total_invest gold_percentage snp_percentage gold_price snp_price st =
     (let gold_invest = rnd (total_invest * rnd (gold_percentage / 100));
          snp_invest = rnd (total_invest * rnd (snp_percentage / 100));
          gold_shares' = (if gold_price > 0
                          then rnd (gold_shares st + rnd (gold_invest / gold_price))
                          else gold_shares st);
          snp500_shares' = (if snp_price > 0
                            then rnd (snp500_shares st + rnd (snp_invest / snp_price))
                            else snp500_shares st);
          total_gold_value = rnd (gold_shares' * gold_price);
          total_snp500_value = rnd (snp500_shares' * snp_price);
          total_invested' = rnd (total_invested st + total_invest);
          total_portfolio_value = rnd (total_gold_value + total_snp500_value)
      in \<lparr>gold_shares = gold_shares', snp500_shares = snp500_shares',
          total_invested = total_invested',
          total_portfolio_values = total_portfolio_values st @ [total_portfolio_value],
          cumulative_invested = cumulative_invested st @ [total_invested']\<rparr>)"

text \<open>
  The loop over \<^verbatim>\<open>gold_monthly.index\<close>. The rows of the gold frame are visited in
  order; on a unique index \<^verbatim>\<open>gold_monthly.loc[date]['Price']\<close> is the price of the row
  visited, and \<^verbatim>\<open>date in gold_monthly.index\<close> holds. A date that is not in the index of
  the other frame is passed over.
\<close>

fun dca_loop ::
    "(real \<Rightarrow> real) \<Rightarrow> real \<Rightarrow> real \<Rightarrow> real \<Rightarrow> prices \<Rightarrow> prices \<Rightarrow> dca_state \<Rightarrow> dca_state" where
  "dca_loop rnd total_invest gold_percentage snp_percentage [] snp st = st"
| "dca_loop rnd total_invest gold_percentage snp_percentage ((date, gold_price) # rest) snp st =
     (case map_of snp date of
        None \<Rightarrow> dca_loop rnd total_invest gold_percentage snp_percentage rest snp st
      | Some snp_price \<Rightarrow>
          dca_loop rnd total_invest gold_percentage snp_percentage rest snp
            (dca_step rnd total_invest gold_percentage snp_percentage gold_price snp_price st))"

text \<open>\<^verbatim>\<open>frame.loc[start_date:]\<close> on an increasing index: the rows from \<open>start_date\<close> on.\<close>

definition loc_from :: "date \<Rightarrow> prices \<Rightarrow> prices" where
  "loc_from start_date df = filter (\<lambda>r. start_date \<le> fst r) df"

text \<open>\<^verbatim>\<open>pd.Series(values, index=gold_monthly.index[:len(values)])\<close>.\<close>

definition make_series :: "real list \<Rightarrow> prices \<Rightarrow> series" where
  "make_series vals gold = zip (take (length vals) (map fst gold)) (map Some vals)"

definition rebalance_period :: "(string \<times> string) list" where
  "rebalance_period =
     [(''monthly'', ''M''), (''quarterly'', ''Q''), (''semiannually'', ''2Q''), (''annually'', ''A'')]"

text \<open>Lines 152 to 156. \<^verbatim>\<open>None\<close> and the empty string are false in Python.\<close>

definition rebalance :: "string option \<Rightarrow> series \<Rightarrow> series \<Rightarrow> py_error + (series \<times> series)" where
  "rebalance rebalance_frequency pv ci =
     (case rebalance_frequency of
        None \<Rightarrow> Inr (pv, ci)
      | Some f \<Rightarrow>
          if f = [] then Inr (pv, ci)
          else
            (let rebalance_freq = map_of rebalance_period f
             in case resample_rule_last rebalance_freq pv of
                  Inl e \<Rightarrow> Inl e
                | Inr pv' \<Rightarrow>
                   (case resample_rule_last rebalance_freq ci of
                      Inl e \<Rightarrow> Inl e
                    | Inr ci' \<Rightarrow> Inr (pv', ci'))))"

text \<open>
  \<^verbatim>\<open>calculate_dca\<close>. The last log line formats
  \<^verbatim>\<open>total_portfolio_value_series.iloc[-1]\<close>, which raises \<^verbatim>\<open>IndexError\<close> on an empty
  series; the function returns the two series otherwise.
\<close>

definition calculate_dca ::
    "(real \<Rightarrow> real) \<Rightarrow> prices \<Rightarrow> prices \<Rightarrow> real \<Rightarrow> real \<Rightarrow> real \<Rightarrow> date \<Rightarrow> string option
      \<Rightarrow> py_error + (series \<times> series)" where
  "calculate_dca rnd gold_monthly snp500_monthly total_invest gold_percentage snp_percentage
       start_date rebalance_frequency =
     (let gold = loc_from start_date gold_monthly;
          snp = loc_from start_date snp500_monthly;
          st = dca_loop rnd total_invest gold_percentage snp_percentage gold snp init_state;
          total_portfolio_value_series = make_series (total_portfolio_values st) gold;
          cumulative_invested_series = make_series (cumulative_invested st) gold
      in case rebalance rebalance_frequency total_portfolio_value_series
                cumulative_invested_series of
           Inl e \<Rightarrow> Inl e
         | Inr (pv, ci) \<Rightarrow> if pv = [] then Inl IndexError else Inr (pv, ci))"

subsection \<open>\<^verbatim>\<open>collect_dca_scenarios\<close>\<close>

text \<open>
  The answers read from the prompts for one scenario: the two numbers, the answer to
  the rebalancing question (after \<^verbatim>\<open>strip().lower()\<close>) and the frequency typed when that
  answer is \<^verbatim>\<open>yes\<close>. The label is kept as the values it formats. The numbers typed are floats.
\<close>

record scenario_input =
  total_invest_in :: real
  gold_percentage_in :: real
  rebalance_in :: string
  frequency_in :: string

type_synonym scenario_label = "nat \<times> real \<times> real \<times> real \<times> string option"

definition rebalance_frequency_of :: "scenario_input \<Rightarrow> string option" where
  "rebalance_frequency_of c = (if rebalance_in c = ''yes'' then Some (frequency_in c) else None)"

text \<open>The loop over \<^verbatim>\<open>range(num_scenarios)\<close>, from scenario \<open>i\<close> on. Nothing catches an
  exception of \<^verbatim>\<open>calculate_dca\<close>; \<^verbatim>\<open>gold_monthly.index[0]\<close> raises on an empty frame.\<close>

fun collect_from ::
    "(real \<Rightarrow> real) \<Rightarrow> nat \<Rightarrow> scenario_input list \<Rightarrow> prices \<Rightarrow> prices
      \<Rightarrow> py_error + (series \<times> series \<times> scenario_label) list" where
  "collect_from rnd i [] gold_monthly snp500_monthly = Inr []"
| "collect_from rnd i (c # cs) gold_monthly snp500_monthly =
     (case gold_monthly of
        [] \<Rightarrow> Inl IndexError
      | (date0, _) # _ \<Rightarrow>
         (let total_invest = total_invest_in c;
              gold_percentage = gold_percentage_in c;
              snp_percentage = rnd (100 - gold_percentage);
              rebalance_frequency = rebalance_frequency_of c
          in case calculate_dca rnd gold_monthly snp500_monthly total_invest gold_percentage
                    snp_percentage date0 rebalance_frequency of
               Inl e \<Rightarrow> Inl e
             | Inr (pv, ci) \<Rightarrow>
                (case collect_from rnd (Suc i) cs gold_monthly snp500_monthly of
                   Inl e \<Rightarrow> Inl e
                 | Inr rest \<Rightarrow>
                     Inr ((pv, ci, (Suc i, total_invest, gold_percentage, snp_percentage,
                                    rebalance_frequency)) # rest))))"

definition collect_dca_scenarios ::
    "(real \<Rightarrow> real) \<Rightarrow> scenario_input list \<Rightarrow> prices \<Rightarrow> prices
      \<Rightarrow> py_error + (series \<times> series \<times> scenario_label) list" where
  "collect_dca_scenarios rnd inputs gold_monthly snp500_monthly =
     collect_from rnd 0 inputs gold_monthly snp500_monthly"

subsection \<open>The specification's view of the simulation\<close>

text \<open>
  The eligible dates of the specification: the dates from \<open>start_date\<close> on that are in
  both series, in the order of the first series, each with its two prices.
\<close>

definition eligible_rows :: "prices \<Rightarrow> prices \<Rightarrow> date \<Rightarrow> (date \<times> real \<times> real) list" where
  "eligible_rows seriesA seriesB start_date =
     concat (map (\<lambda>a. if start_date \<le> fst a
                       then (case map_of seriesB (fst a) of
                               None \<Rightarrow> []
                             | Some priceB \<Rightarrow> [(fst a, snd a, priceB)])
                       else []) seriesA)"

text \<open>The portfolio state after the first \<open>i + 1\<close> eligible dates, as the left fold of
  the specification's design notes, and the value of the portfolio at the last of them.\<close>

definition state_after ::
    "(real \<Rightarrow> real) \<Rightarrow> real \<Rightarrow> real \<Rightarrow> real \<Rightarrow> (date \<times> real \<times> real) list \<Rightarrow> nat \<Rightarrow> dca_state" where
  "state_after rnd total_invest gold_percentage snp_percentage rows i =
     foldl (\<lambda>st r. dca_step rnd total_invest gold_percentage snp_percentage
                       (fst (snd r)) (snd (snd r)) st)
       init_state (take (Suc i) rows)"

definition current_value ::
    "(real \<Rightarrow> real) \<Rightarrow> real \<Rightarrow> real \<Rightarrow> real \<Rightarrow> (date \<times> real \<times> real) list \<Rightarrow> nat \<Rightarrow> real" where
  "current_value rnd total_invest gold_percentage snp_percentage rows i =
     (let st = state_after rnd total_invest gold_percentage snp_percentage rows i
      in rnd (rnd (gold_shares st * fst (snd (rows ! i))) +
              rnd (snp500_shares st * snd (snd (rows ! i)))))"

section \<open>Properties of the simulation loop\<close>

lemma map_of_loc_from: "start \<le> d \<Longrightarrow> map_of (loc_from start df) d = map_of df d"
  by (induction df) (auto simp: loc_from_def)

text \<open>The loop is the left fold of its body over the eligible rows.\<close>

lemma dca_loop_foldl:
  "dca_loop rnd ti gp sp (loc_from start A) (loc_from start B) st =
     foldl (\<lambda>st r. dca_step rnd ti gp sp (fst (snd r)) (snd (snd r)) st) st (eligible_rows A B start)"
proof (induction A arbitrary: st)
  case Nil
  show ?case by (simp add: loc_from_def eligible_rows_def)
next
  case (Cons a A)
  obtain d pa where a: "a = (d, pa)" by (cases a)
  show ?case
  proof (cases "start \<le> d")
    case True
    have tl: "loc_from start (a # A) = (d, pa) # loc_from start A"
      using True a by (simp add: loc_from_def)
    show ?thesis
    proof (cases "map_of B d")
      case None
      then show ?thesis
        using Cons.IH [of st] True a tl
        by (simp add: map_of_loc_from eligible_rows_def)
    next
      case (Some pb)
      then show ?thesis
        using Cons.IH [of "dca_step rnd ti gp sp pa pb st"] True a tl
        by (simp add: map_of_loc_from eligible_rows_def)
    qed
  next
    case False
    then have "loc_from start (a # A) = loc_from start A"
      using a by (simp add: loc_from_def)
    then show ?thesis
      using Cons.IH [of st] False a by (simp add: eligible_rows_def)
  qed
qed

lemma foldl_step_cumulative:
  "cumulative_invested (foldl (\<lambda>st r. dca_step rnd ti gp sp (fst (snd r)) (snd (snd r)) st) st rs)
     = cumulative_invested st @
       map (\<lambda>i. total_invested
                   (foldl (\<lambda>st r. dca_step rnd ti gp sp (fst (snd r)) (snd (snd r)) st) st
                      (take (Suc i) rs)))
           [0..<length rs]"
proof (induction rs rule: rev_induct)
  case Nil
  show ?case by simp
next
  case (snoc r rs)
  have c: "cumulative_invested (dca_step rnd ti gp sp pa pb s) =
        cumulative_invested s @ [total_invested (dca_step rnd ti gp sp pa pb s)]"
    for pa pb s by (simp add: dca_step_def Let_def)
  show ?case
    using snoc by (simp add: c)
qed

lemma foldl_step_values:
  "total_portfolio_values (foldl (\<lambda>st r. dca_step rnd ti gp sp (fst (snd r)) (snd (snd r)) st) st rs)
     = total_portfolio_values st @
       map (\<lambda>i. let s = foldl (\<lambda>st r. dca_step rnd ti gp sp (fst (snd r)) (snd (snd r)) st) st
                           (take (Suc i) rs)
                 in rnd (rnd (gold_shares s * fst (snd (rs ! i))) +
                         rnd (snp500_shares s * snd (snd (rs ! i)))))
           [0..<length rs]"
proof (induction rs rule: rev_induct)
  case Nil
  show ?case by simp
next
  case (snoc r rs)
  have v: "total_portfolio_values (dca_step rnd ti gp sp pa pb s) =
        total_portfolio_values s @
          [rnd (rnd (gold_shares (dca_step rnd ti gp sp pa pb s) * pa) +
                rnd (snp500_shares (dca_step rnd ti gp sp pa pb s) * pb))]"
    for pa pb s by (simp add: dca_step_def Let_def)
  show ?case
    using snoc by (simp add: v nth_append Let_def)
qed

text \<open>The invested total after each step: the total before plus the monthly amount,
  rounded, whatever the prices are.\<close>

lemma total_invested_step:
  "total_invested (dca_step rnd ti gp sp pa pb st) = rnd (total_invested st + ti)"
  by (simp add: dca_step_def Let_def)

lemma eligible_rows_empty:
  assumes "{d \<in> fst ` set A \<inter> fst ` set B. start \<le> d} = {}"
  shows "eligible_rows A B start = []"
proof -
  have "\<And>a. a \<in> set A \<Longrightarrow> start \<le> fst a \<Longrightarrow> map_of B (fst a) = None"
  proof -
    fix a assume a: "a \<in> set A" "start \<le> fst a"
    have "fst a \<notin> fst ` set B"
    proof
      assume "fst a \<in> fst ` set B"
      with a have "fst a \<in> {d \<in> fst ` set A \<inter> fst ` set B. start \<le> d}" by simp
      with assms show False by blast
    qed
    then show "map_of B (fst a) = None" by (simp add: map_of_eq_None_iff)
  qed
  then show ?thesis
    by (auto simp: eligible_rows_def)
qed

lemma make_series_Nil: "make_series [] gold = []"
  by (simp add: make_series_def)

lemma resample_last_Nil: "resample_last off [] = []"
  by (cases off) (simp add: resample_last_def)

lemma resample_last_eq_Nil: "resample_last off s = [] \<longleftrightarrow> s = []"
  by (cases off) (simp add: resample_last_def Let_def)

lemma rebalance_Nil:
  "rebalance rf [] [] = Inr ([], []) \<or> rebalance rf [] [] = Inl FrequencyError"
  by (auto simp: rebalance_def resample_rule_last_def resample_last_Nil Let_def
      split: option.splits)

lemma rebalance_Nil_recognised:
  "(case rf of None \<Rightarrow> True | Some f \<Rightarrow> f = [] \<or> f \<in> set (map fst rebalance_period)) \<Longrightarrow>
   rebalance rf [] [] = Inr ([], [])"
  by (auto simp: rebalance_def resample_rule_last_def resample_last_Nil Let_def
       rebalance_period_def to_offset_def split: option.splits)

lemma loop_no_eligible:
  assumes "{d \<in> fst ` set A \<inter> fst ` set B. start \<le> d} = {}"
  shows "dca_loop rnd ti gp sp (loc_from start A) (loc_from start B) init_state = init_state"
  by (simp add: dca_loop_foldl eligible_rows_empty [OF assms])

section \<open>No eligible date\<close>

text \<open>
  Claim C2. When no date from \<open>start_date\<close> on is in both series, \<open>calculate_dca\<close>
  fails and returns no series, whatever the other arguments are. The loop body never
  runs, both series are empty, and the last log line reads \<^verbatim>\<open>iloc[-1]\<close> of an empty
  series: this \<^verbatim>\<open>IndexError\<close> is the failure the specification names \<open>NoEligibleDates\<close>.
  It is the error for every configuration of the specification (no rebalancing, or one
  of the four frequencies); a frequency string outside the table makes \<^verbatim>\<open>resample\<close>
  raise first.
\<close>

theorem C2_no_eligible_dates:
  assumes "{d \<in> fst ` set gold_monthly \<inter> fst ` set snp500_monthly. start_date \<le> d} = {}"
  shows "(calculate_dca rnd gold_monthly snp500_monthly ti gp sp start_date rf = Inl IndexError \<or>
          calculate_dca rnd gold_monthly snp500_monthly ti gp sp start_date rf = Inl FrequencyError) \<and>
         ((case rf of None \<Rightarrow> True | Some f \<Rightarrow> f = [] \<or> f \<in> set (map fst rebalance_period)) \<longrightarrow>
          calculate_dca rnd gold_monthly snp500_monthly ti gp sp start_date rf = Inl IndexError)"
proof -
  have st: "dca_loop rnd ti gp sp (loc_from start_date gold_monthly) (loc_from start_date snp500_monthly) init_state
      = init_state"
    by (rule loop_no_eligible [OF assms])
  have c: "calculate_dca rnd gold_monthly snp500_monthly ti gp sp start_date rf =
      (case rebalance rf [] [] of Inl e \<Rightarrow> Inl e
        | Inr (pv, ci) \<Rightarrow> if pv = [] then Inl IndexError else Inr (pv, ci))"
    unfolding calculate_dca_def Let_def st by (simp add: init_state_def make_series_Nil)
  show ?thesis
    using rebalance_Nil [of rf] rebalance_Nil_recognised [of rf]
    by (auto simp: c)
qed

theorem C2_no_eligible_dates_witness:
  "{d \<in> fst ` set [((2020, 1, 31), 100::real)] \<inter> fst ` set [((2020, 2, 29), 11::real)].
      ((2020, 1, 31)::date) \<le> d} = {} \<and>
   calculate_dca (\<lambda>x. x) [((2020, 1, 31), 100)] [((2020, 2, 29), 11)] 1000 50 50 (2020, 1, 31) None
     = Inl IndexError"
proof -
  have h: "{d \<in> fst ` set [((2020, 1, 31), 100::real)] \<inter> fst ` set [((2020, 2, 29), 11::real)].
      ((2020, 1, 31)::date) \<le> d} = {}"
    by auto
  show ?thesis
    using h C2_no_eligible_dates [OF h, where rnd = "\<lambda>x. x" and ti = 1000 and gp = 50
        and sp = 50 and rf = None]
    by simp
qed

section \<open>A price that is not positive\<close>

text \<open>
  Claim C3. At a date of both series the loop runs its body once and goes on with the
  rest. In that step an asset whose price is zero or negative keeps its share count
  (nothing is raised, nothing is bought), while the invested total grows by the whole
  monthly amount (a float addition, rounded as every other) and is recorded.
\<close>

theorem C3_zero_price_skip:
  "map_of snp date = Some snp_price \<Longrightarrow>
   dca_loop rnd ti gp sp ((date, gold_price) # rest) snp st =
     dca_loop rnd ti gp sp rest snp (dca_step rnd ti gp sp gold_price snp_price st) \<and>
   (gold_price \<le> 0 \<longrightarrow> gold_shares (dca_step rnd ti gp sp gold_price snp_price st) = gold_shares st) \<and>
   (snp_price \<le> 0 \<longrightarrow> snp500_shares (dca_step rnd ti gp sp gold_price snp_price st) = snp500_shares st) \<and>
   total_invested (dca_step rnd ti gp sp gold_price snp_price st) = rnd (total_invested st + ti) \<and>
   cumulative_invested (dca_step rnd ti gp sp gold_price snp_price st) =
     cumulative_invested st @ [rnd (total_invested st + ti)]"
  by (simp add: dca_step_def Let_def)

theorem C3_zero_price_skip_witness:
  "dca_loop (\<lambda>x. x) 1000 50 50 [((2020, 1, 31), 0), ((2020, 2, 29), 100)]
       [((2020, 1, 31), - 5), ((2020, 2, 29), 10)] init_state
     = dca_loop (\<lambda>x. x) 1000 50 50 [((2020, 2, 29), 100)] [((2020, 1, 31), - 5), ((2020, 2, 29), 10)]
         (dca_step (\<lambda>x. x) 1000 50 50 0 (- 5) init_state) \<and>
   gold_shares (dca_step (\<lambda>x. x) 1000 50 50 0 (- 5) init_state) = 0 \<and>
   snp500_shares (dca_step (\<lambda>x. x) 1000 50 50 0 (- 5) init_state) = 0 \<and>
   total_invested (dca_step (\<lambda>x. x) 1000 50 50 0 (- 5) init_state) = 1000 \<and>
   cumulative_invested (dca_step (\<lambda>x. x) 1000 50 50 0 (- 5) init_state) = [1000]"
  using C3_zero_price_skip [where snp = "[((2020, 1, 31), - 5), ((2020, 2, 29), 10)]"
      and date = "(2020, 1, 31)" and snp_price = "- 5" and rnd = "\<lambda>x. x" and ti = 1000
      and gp = 50 and sp = 50 and gold_price = 0 and rest = "[((2020, 2, 29), 100)]"
      and st = init_state]
  by (simp add: init_state_def)

section \<open>The series built by \<^verbatim>\<open>calculate_dca\<close>\<close>

lemma eligible_rows_length: "length (eligible_rows A B start) \<le> length (loc_from start A)"
  by (induction A) (auto simp: eligible_rows_def loc_from_def split: option.splits)

lemma eligible_rows_aligned:
  "(\<forall>a\<in>set A. start \<le> fst a \<longrightarrow> fst a \<in> fst ` set B) \<Longrightarrow>
   map fst (eligible_rows A B start) = map fst (loc_from start A)"
proof (induction A)
  case Nil
  show ?case by (simp add: eligible_rows_def loc_from_def)
next
  case (Cons a A)
  have ih: "map fst (eligible_rows A B start) = map fst (loc_from start A)"
    using Cons by simp
  show ?case
  proof (cases "start \<le> fst a")
    case True
    then have "fst a \<in> fst ` set B" using Cons.prems by simp
    then obtain pb where "map_of B (fst a) = Some pb"
      by (metis map_of_eq_None_iff not_Some_eq)
    then show ?thesis
      using ih True by (simp add: eligible_rows_def loc_from_def)
  next
    case False
    then show ?thesis
      using ih by (simp add: eligible_rows_def loc_from_def)
  qed
qed

lemma make_series_fst:
  "map fst (make_series vals gold) = take (length vals) (map fst gold)"
  if "length vals \<le> length gold"
  using that by (simp add: make_series_def)

lemma make_series_snd:
  "map snd (make_series vals gold) = map Some vals"
  if "length vals \<le> length gold"
  using that by (simp add: make_series_def)

lemma resample_last_index:
  assumes "map fst xs = map fst ys"
  shows "map fst (resample_last off xs) = map fst (resample_last off ys)"
proof -
  have e: "xs = [] \<longleftrightarrow> ys = []"
    using assms by (metis map_is_Nil_conv)
  obtain n p where off: "off = (n, p)" by (cases off)
  show ?thesis
    using assms e by (simp add: off resample_last_def Let_def comp_def)
qed

lemma rebalance_index:
  assumes "rebalance rf pv0 ci0 = Inr (pv, ci)" and "map fst pv0 = map fst ci0"
  shows "map fst pv = map fst ci"
  using assms resample_last_index [OF assms(2)]
  by (auto simp: rebalance_def resample_rule_last_def Let_def split: option.splits if_splits)

text \<open>Without rebalancing the result is the two series built after the loop.\<close>

lemma calculate_dca_plain:
  assumes "rf = None \<or> rf = Some []"
  shows "calculate_dca rnd A B ti gp sp start rf =
     (let rows = eligible_rows A B start;
          st = foldl (\<lambda>st r. dca_step rnd ti gp sp (fst (snd r)) (snd (snd r)) st) init_state rows
      in if rows = [] then Inl IndexError
         else Inr (make_series (total_portfolio_values st) (loc_from start A),
                   make_series (cumulative_invested st) (loc_from start A)))"
proof -
  have r: "rebalance rf pv ci = Inr (pv, ci)" for pv ci
    using assms by (auto simp: rebalance_def)
  let ?rows = "eligible_rows A B start"
  let ?st = "foldl (\<lambda>st r. dca_step rnd ti gp sp (fst (snd r)) (snd (snd r)) st) init_state ?rows"
  have len: "length (total_portfolio_values ?st) = length ?rows"
    by (simp add: foldl_step_values init_state_def)
  have "make_series (total_portfolio_values ?st) (loc_from start A) = [] \<longleftrightarrow> ?rows = []"
    using len eligible_rows_length [of A B start]
    by (cases "loc_from start A") (auto simp: make_series_def)
  then show ?thesis
    unfolding calculate_dca_def Let_def r dca_loop_foldl by simp
qed

lemma zip_as_map:
  assumes "length vals = length ds"
  shows "zip ds (map Some vals) = map (\<lambda>i. (ds ! i, Some (vals ! i))) [0..<length ds]"
  using assms by (intro nth_equalityI) simp_all

lemma make_series_aligned:
  assumes "map fst gold = map fst rows" and "length vals = length rows"
  shows "make_series vals gold = map (\<lambda>i. (fst (rows ! i), Some (vals ! i))) [0..<length rows]"
proof -
  have "make_series vals gold = zip (map fst rows) (map Some vals)"
    using assms by (simp add: make_series_def)
  also have "\<dots> = map (\<lambda>i. (map fst rows ! i, Some (vals ! i))) [0..<length (map fst rows)]"
    by (rule zip_as_map) (simp add: assms)
  also have "\<dots> = map (\<lambda>i. (fst (rows ! i), Some (vals ! i))) [0..<length rows]"
    by simp
  finally show ?thesis .
qed

lemma calculate_dca_rebalanced:
  assumes "map_of rebalance_period f = Some rule" and off: "map_of to_offset rule = Some off"
  shows "calculate_dca rnd gold_monthly snp500_monthly ti gp sp start_date (Some f) =
             (case calculate_dca rnd gold_monthly snp500_monthly ti gp sp start_date None of
                Inl e \<Rightarrow> Inl e
              | Inr (pv, ci) \<Rightarrow> Inr (resample_last off pv, resample_last off ci))"
proof -
  have f: "f \<noteq> []"
    using assms(1) by (auto simp: rebalance_period_def split: if_splits)
  have r: "rebalance (Some f) pv ci = Inr (resample_last off pv, resample_last off ci)" for pv ci
    using f off assms by (simp add: rebalance_def resample_rule_last_def Let_def)
  have n: "rebalance None pv ci = Inr (pv, ci)" for pv ci
    by (simp add: rebalance_def)
  show ?thesis
    unfolding calculate_dca_def Let_def r n
    by (simp add: resample_last_eq_Nil)
qed

lemma rebalance_period_offset:
  assumes "map_of rebalance_period f = Some rule"
  shows "\<exists>off. map_of to_offset rule = Some off"
  using assms by (auto simp: rebalance_period_def to_offset_def split: if_splits)

text \<open>
  Concrete runs, evaluated by rewriting. Their amounts and prices are chosen so that
  every intermediate value is an integer or a half: no operation rounds, in binary
  floating point as in exact arithmetic, and the rounding is the identity.
\<close>

lemma ev_2020:
  "calculate_dca (\<lambda>x. x) [((2020, 1, 31), 100), ((2020, 2, 29), 125), ((2020, 3, 31), 200)]
                 [((2020, 1, 31), 10), ((2020, 2, 29), 20), ((2020, 3, 31), 40)]
                 1000 50 50 (2020, 1, 31) None
     = Inr ([((2020, 1, 31), Some 1000), ((2020, 2, 29), Some 2625), ((2020, 3, 31), Some 5800)],
            [((2020, 1, 31), Some 1000), ((2020, 2, 29), Some 2000), ((2020, 3, 31), Some 3000)])"
  by (simp add: calculate_dca_def loc_from_def dca_step_def init_state_def make_series_def
        rebalance_def Let_def)

lemma ev_2020_q1:
  "resample_last (1, 3)
     [((2020, 1, 31), Some 1000), ((2020, 2, 29), Some 2625), ((2020, 3, 31), Some 5800)]
   = [((2020, 3, 31), Some 5800)]"
  by (simp add: resample_last_def period_of_def period_end_def bin_index_def last_valid_def
        days_in_month_def is_leap_def Let_def)

lemma ev_2020_q2:
  "resample_last (1, 3)
     [((2020, 1, 31), Some 1000), ((2020, 2, 29), Some 2000), ((2020, 3, 31), Some 3000)]
   = [((2020, 3, 31), Some 3000)]"
  by (simp add: resample_last_def period_of_def period_end_def bin_index_def last_valid_def
        days_in_month_def is_leap_def Let_def)

lemma ev_2020_rows:
  "map fst (eligible_rows [((2020, 1, 31), 100), ((2020, 2, 29), 125), ((2020, 3, 31), 200)]
                 [((2020, 1, 31), 10), ((2020, 2, 29), 20), ((2020, 3, 31), 40)] (2020, 1, 31))
     = [(2020, 1, 31), (2020, 2, 29), (2020, 3, 31)]"
  by (simp add: eligible_rows_def)

lemma ev_2021:
  "calculate_dca (\<lambda>x. x) [((2021, 1, 31), 100), ((2021, 2, 28), 100)]
                 [((2021, 1, 31), 10), ((2021, 2, 28), 10)] 1000 50 50 (2021, 1, 31) None
     = Inr ([((2021, 1, 31), Some 1000), ((2021, 2, 28), Some 2000)],
            [((2021, 1, 31), Some 1000), ((2021, 2, 28), Some 2000)])"
  by (simp add: calculate_dca_def loc_from_def dca_step_def init_state_def make_series_def
        rebalance_def Let_def)

lemma ev_2021_q: "resample_last (1, 3) [((2021, 1, 31), Some 1000), ((2021, 2, 28), Some 2000)]
   = [((2021, 3, 31), Some 2000)]"
  by (simp add: resample_last_def period_of_def period_end_def bin_index_def last_valid_def
        days_in_month_def is_leap_def Let_def)

lemma ev_2022:
  "calculate_dca (\<lambda>x. x) [((2022, 1, 31), 100), ((2022, 2, 28), 100), ((2022, 3, 31), 100), ((2022, 8, 31), 200)]
                 [((2022, 1, 31), 10), ((2022, 2, 28), 10), ((2022, 3, 31), 10), ((2022, 8, 31), 10)]
                 1000 50 50 (2022, 1, 31) None
     = Inr ([((2022, 1, 31), Some 1000), ((2022, 2, 28), Some 2000), ((2022, 3, 31), Some 3000),
             ((2022, 8, 31), Some 5500)],
            [((2022, 1, 31), Some 1000), ((2022, 2, 28), Some 2000), ((2022, 3, 31), Some 3000),
             ((2022, 8, 31), Some 4000)])"
  by (simp add: calculate_dca_def loc_from_def dca_step_def init_state_def make_series_def
        rebalance_def Let_def)

lemma ev_2022_h1:
  "resample_last (2, 3)
     [((2022, 1, 31), Some 1000), ((2022, 2, 28), Some 2000), ((2022, 3, 31), Some 3000),
      ((2022, 8, 31), Some 5500)]
   = [((2022, 3, 31), Some 3000), ((2022, 9, 30), Some 5500)]"
  by (simp add: resample_last_def period_of_def period_end_def bin_index_def last_valid_def
        days_in_month_def is_leap_def Let_def upt_rec)

lemma ev_2022_h2:
  "resample_last (2, 3)
     [((2022, 1, 31), Some 1000), ((2022, 2, 28), Some 2000), ((2022, 3, 31), Some 3000),
      ((2022, 8, 31), Some 4000)]
   = [((2022, 3, 31), Some 3000), ((2022, 9, 30), Some 4000)]"
  by (simp add: resample_last_def period_of_def period_end_def bin_index_def last_valid_def
        days_in_month_def is_leap_def Let_def upt_rec)

lemma ev_2023_good:
  "calculate_dca (\<lambda>x. x) [((2023, 1, 31), 100)] [((2023, 1, 31), 10)] 1000 50 (100 - 50) (2023, 1, 31) None
     = Inr ([((2023, 1, 31), Some 1000)], [((2023, 1, 31), Some 1000)])"
  by (simp add: calculate_dca_def loc_from_def dca_step_def init_state_def make_series_def
        rebalance_def Let_def)

lemma ev_2023_bad:
  "calculate_dca (\<lambda>x. x) [((2023, 1, 31), 100)] [((2023, 1, 31), 10)] 1000 50 (100 - 50) (2023, 1, 31)
      (Some ''weekly'') = Inl FrequencyError"
  by (simp add: calculate_dca_def rebalance_def rebalance_period_def resample_rule_last_def Let_def)

section \<open>Alignment of the two series\<close>

text \<open>
  Claim C1, as amended. Whenever \<open>calculate_dca\<close> returns, its two series have the
  same date index and so the same length, with or without rebalancing. Without
  rebalancing, and when every date of the first series from \<open>start_date\<close> on is also a
  date of the second, the index is the list of the eligible dates in the order of the
  first series, and the entries at the \<open>i\<close>-th eligible date are the value of the
  portfolio at that date and the amount invested after it; a date of the second series
  that the first does not have is neither invested nor recorded. With a rebalancing
  frequency the series hold one entry per period instead (claim C8).
\<close>

theorem C1_series_aligned:
  assumes "calculate_dca rnd A B ti gp sp start rf = Inr (pv, ci)"
  shows "map fst pv = map fst ci \<and> length pv = length ci \<and>
         ((rf = None \<or> rf = Some []) \<and> (\<forall>a\<in>set A. start \<le> fst a \<longrightarrow> fst a \<in> fst ` set B) \<longrightarrow>
            pv = map (\<lambda>i. (fst (eligible_rows A B start ! i),
                           Some (current_value rnd ti gp sp (eligible_rows A B start) i)))
                   [0..<length (eligible_rows A B start)] \<and>
            ci = map (\<lambda>i. (fst (eligible_rows A B start ! i),
                           Some (total_invested (state_after rnd ti gp sp (eligible_rows A B start) i))))
                   [0..<length (eligible_rows A B start)])"
proof -
  let ?rows = "eligible_rows A B start"
  let ?gold = "loc_from start A"
  let ?st = "foldl (\<lambda>st r. dca_step rnd ti gp sp (fst (snd r)) (snd (snd r)) st) init_state ?rows"
  have lv: "length (total_portfolio_values ?st) = length ?rows"
    by (simp add: foldl_step_values init_state_def)
  have lc: "length (cumulative_invested ?st) = length ?rows"
    by (simp add: foldl_step_cumulative init_state_def)
  have le: "length ?rows \<le> length ?gold"
    by (rule eligible_rows_length)
  have idx0: "map fst (make_series (total_portfolio_values ?st) ?gold)
               = map fst (make_series (cumulative_invested ?st) ?gold)"
    using le lv lc by (simp add: make_series_fst)
  have "rebalance rf (make_series (total_portfolio_values ?st) ?gold)
          (make_series (cumulative_invested ?st) ?gold) = Inr (pv, ci)"
    using assms unfolding calculate_dca_def Let_def dca_loop_foldl
    by (auto split: sum.splits if_splits)
  from rebalance_index [OF this idx0] have idx: "map fst pv = map fst ci" .
  then have len: "length pv = length ci"
    by (metis length_map)
  have plain: "pv = map (\<lambda>i. (fst (?rows ! i), Some (current_value rnd ti gp sp ?rows i))) [0..<length ?rows] \<and>
      ci = map (\<lambda>i. (fst (?rows ! i), Some (total_invested (state_after rnd ti gp sp ?rows i)))) [0..<length ?rows]"
    if rf: "rf = None \<or> rf = Some []"
      and al: "\<forall>a\<in>set A. start \<le> fst a \<longrightarrow> fst a \<in> fst ` set B"
  proof -
    have fst_eq: "map fst ?gold = map fst ?rows"
      using eligible_rows_aligned [OF al] by simp
    have res: "pv = make_series (total_portfolio_values ?st) ?gold"
         "ci = make_series (cumulative_invested ?st) ?gold"
      using assms unfolding calculate_dca_plain [OF rf] Let_def
      by (simp_all split: if_splits)
    have v: "total_portfolio_values ?st ! i = current_value rnd ti gp sp ?rows i"
      if "i < length ?rows" for i
      using that
      by (simp add: foldl_step_values init_state_def current_value_def state_after_def Let_def)
    have c: "cumulative_invested ?st ! i = total_invested (state_after rnd ti gp sp ?rows i)"
      if "i < length ?rows" for i
      using that
      by (simp add: foldl_step_cumulative init_state_def state_after_def)
    show ?thesis
      unfolding res make_series_aligned [OF fst_eq lv] make_series_aligned [OF fst_eq lc]
      using v c by simp
  qed
  show ?thesis
    using idx len plain by blast
qed

theorem C1_series_aligned_witness:
  "calculate_dca (\<lambda>x. x) [((2020, 1, 31), 100), ((2020, 2, 29), 125), ((2020, 3, 31), 200)]
                 [((2020, 1, 31), 10), ((2020, 2, 29), 20), ((2020, 3, 31), 40)]
                 1000 50 50 (2020, 1, 31) None
     = Inr ([((2020, 1, 31), Some 1000), ((2020, 2, 29), Some 2625), ((2020, 3, 31), Some 5800)],
            [((2020, 1, 31), Some 1000), ((2020, 2, 29), Some 2000), ((2020, 3, 31), Some 3000)]) \<and>
   [((2020, 1, 31), Some 1000), ((2020, 2, 29), Some 2000), ((2020, 3, 31), Some 3000)]
     = map (\<lambda>i. (fst (eligible_rows [((2020, 1, 31), 100), ((2020, 2, 29), 125), ((2020, 3, 31), 200)]
                 [((2020, 1, 31), 10), ((2020, 2, 29), 20), ((2020, 3, 31), 40)] (2020, 1, 31) ! i),
                   Some (total_invested (state_after (\<lambda>x. x) 1000 50 50
                     (eligible_rows [((2020, 1, 31), 100), ((2020, 2, 29), 125), ((2020, 3, 31), 200)]
                 [((2020, 1, 31), 10), ((2020, 2, 29), 20), ((2020, 3, 31), 40)] (2020, 1, 31)) i))))
         [0..<length (eligible_rows [((2020, 1, 31), 100), ((2020, 2, 29), 125), ((2020, 3, 31), 200)]
                 [((2020, 1, 31), 10), ((2020, 2, 29), 20), ((2020, 3, 31), 40)] (2020, 1, 31))]"
proof -
  have al: "\<forall>a\<in>set [((2020, 1, 31), 100::real), ((2020, 2, 29), 110), ((2020, 3, 31), 121)].
      ((2020, 1, 31)::date) \<le> fst a \<longrightarrow>
      fst a \<in> fst ` set [((2020, 1, 31), 10::real), ((2020, 2, 29), 11), ((2020, 3, 31), 121 / 10)]"
    by simp
  note t = C1_series_aligned [OF ev_2020, THEN conjunct2, THEN conjunct2]
  have a: "((None::string option) = None \<or> (None::string option) = Some []) \<and>
      (\<forall>a\<in>set [((2020, 1, 31), 100::real), ((2020, 2, 29), 125), ((2020, 3, 31), 200)].
      ((2020, 1, 31)::date) \<le> fst a \<longrightarrow>
      fst a \<in> fst ` set [((2020, 1, 31), 10::real), ((2020, 2, 29), 20), ((2020, 3, 31), 40)])"
    using al by simp
  from t a have b: "[((2020, 1, 31), Some 1000), ((2020, 2, 29), Some 2625), ((2020, 3, 31), Some 5800)]
      = map (\<lambda>i. (fst (eligible_rows [((2020, 1, 31), 100), ((2020, 2, 29), 125), ((2020, 3, 31), 200)]
                 [((2020, 1, 31), 10), ((2020, 2, 29), 20), ((2020, 3, 31), 40)] (2020, 1, 31) ! i),
                   Some (current_value (\<lambda>x. x) 1000 50 50
                     (eligible_rows [((2020, 1, 31), 100), ((2020, 2, 29), 125), ((2020, 3, 31), 200)]
                 [((2020, 1, 31), 10), ((2020, 2, 29), 20), ((2020, 3, 31), 40)] (2020, 1, 31)) i)))
         [0..<length (eligible_rows [((2020, 1, 31), 100), ((2020, 2, 29), 125), ((2020, 3, 31), 200)]
                 [((2020, 1, 31), 10), ((2020, 2, 29), 20), ((2020, 3, 31), 40)] (2020, 1, 31))] \<and>
   [((2020, 1, 31), Some 1000), ((2020, 2, 29), Some 2000), ((2020, 3, 31), Some 3000)]
     = map (\<lambda>i. (fst (eligible_rows [((2020, 1, 31), 100), ((2020, 2, 29), 125), ((2020, 3, 31), 200)]
                 [((2020, 1, 31), 10), ((2020, 2, 29), 20), ((2020, 3, 31), 40)] (2020, 1, 31) ! i),
                   Some (total_invested (state_after (\<lambda>x. x) 1000 50 50
                     (eligible_rows [((2020, 1, 31), 100), ((2020, 2, 29), 125), ((2020, 3, 31), 200)]
                 [((2020, 1, 31), 10), ((2020, 2, 29), 20), ((2020, 3, 31), 40)] (2020, 1, 31)) i))))
         [0..<length (eligible_rows [((2020, 1, 31), 100), ((2020, 2, 29), 125), ((2020, 3, 31), 200)]
                 [((2020, 1, 31), 10), ((2020, 2, 29), 20), ((2020, 3, 31), 40)] (2020, 1, 31))]"
    by (rule mp)
  show ?thesis
    by (intro conjI) (rule ev_2020, rule conjunct2 [OF b])
qed

text \<open>
  The claim as stated fails under rebalancing: three eligible months with quarterly
  rebalancing give series with the single date of the quarter's end.
\<close>

text \<open>
  The claim as stated fails under rebalancing: three eligible months with quarterly
  rebalancing give series with the single date of the quarter's end.
\<close>

theorem C1_counterexample:
  "calculate_dca (\<lambda>x. x) [((2020, 1, 31), 100), ((2020, 2, 29), 125), ((2020, 3, 31), 200)]
                 [((2020, 1, 31), 10), ((2020, 2, 29), 20), ((2020, 3, 31), 40)]
                 1000 50 50 (2020, 1, 31) (Some ''quarterly'')
     = Inr ([((2020, 3, 31), Some 5800)], [((2020, 3, 31), Some 3000)]) \<and>
   map fst (eligible_rows [((2020, 1, 31), 100), ((2020, 2, 29), 125), ((2020, 3, 31), 200)]
                 [((2020, 1, 31), 10), ((2020, 2, 29), 20), ((2020, 3, 31), 40)] (2020, 1, 31))
     = [(2020, 1, 31), (2020, 2, 29), (2020, 3, 31)]"
proof -
  have 1: "map_of rebalance_period ''quarterly'' = Some ''Q''"
    by (simp add: rebalance_period_def)
  have 2: "map_of to_offset ''Q'' = Some (1, 3)"
    by (simp add: to_offset_def)
  show ?thesis
    unfolding calculate_dca_rebalanced [OF 1 2] ev_2020 sum.case prod.case ev_2020_q1 ev_2020_q2
      ev_2020_rows
    by simp
qed

text \<open>
  The index of the two series is taken from the front of the index of the gold frame
  (\<^verbatim>\<open>gold_monthly.index[:len(...)]\<close>), one date per recorded value. When the gold frame
  has a date that the other frame lacks, the values recorded at the later eligible dates
  are therefore paired with earlier dates: below, the values computed at the end of
  February and of March appear under the end of January and of February.
\<close>

lemma calculate_dca_index_prefix:
  assumes "rf = None \<or> rf = Some []"
    and "calculate_dca rnd A B ti gp sp start rf = Inr (pv, ci)"
  shows "map fst pv = take (length (eligible_rows A B start)) (map fst (loc_from start A))"
proof -
  let ?rows = "eligible_rows A B start"
  let ?st = "foldl (\<lambda>st r. dca_step rnd ti gp sp (fst (snd r)) (snd (snd r)) st) init_state ?rows"
  have lv: "length (total_portfolio_values ?st) = length ?rows"
    by (simp add: foldl_step_values init_state_def)
  have "pv = make_series (total_portfolio_values ?st) (loc_from start A)"
    using assms(2) unfolding calculate_dca_plain [OF assms(1)] Let_def
    by (simp split: if_splits)
  then show ?thesis
    using eligible_rows_length [of A B start] lv by (simp add: make_series_fst)
qed

lemma calculate_dca_shifted_dates:
  "calculate_dca (\<lambda>x. x) [((2020, 1, 31), 100), ((2020, 2, 29), 125), ((2020, 3, 31), 200)]
                 [((2020, 2, 29), 20), ((2020, 3, 31), 40)]
                 1000 50 50 (2020, 1, 31) None
     = Inr ([((2020, 1, 31), Some 1000), ((2020, 2, 29), Some 2800)],
            [((2020, 1, 31), Some 1000), ((2020, 2, 29), Some 2000)]) \<and>
   map fst (eligible_rows [((2020, 1, 31), 100), ((2020, 2, 29), 125), ((2020, 3, 31), 200)]
                 [((2020, 2, 29), 20), ((2020, 3, 31), 40)] (2020, 1, 31))
     = [(2020, 2, 29), (2020, 3, 31)]"
  by (simp add: calculate_dca_def loc_from_def dca_step_def init_state_def make_series_def
        rebalance_def eligible_rows_def Let_def)

section \<open>The invested total\<close>

text \<open>The invested total after the first eligible dates, by the recurrence of line 135.\<close>

lemma state_after_0:
  "rows \<noteq> [] \<Longrightarrow> total_invested (state_after rnd ti gp sp rows 0) = rnd (0 + ti)"
  by (cases rows) (simp_all add: state_after_def total_invested_step init_state_def)

lemma state_after_Suc:
  assumes "Suc i < length rows"
  shows "total_invested (state_after rnd ti gp sp rows (Suc i)) =
           rnd (total_invested (state_after rnd ti gp sp rows i) + ti)"
proof -
  have "take (Suc (Suc i)) rows = take (Suc i) rows @ [rows ! Suc i]"
    using assms by (simp add: take_Suc_conv_app_nth)
  then show ?thesis
    by (simp add: state_after_def total_invested_step)
qed

lemma invested_exact:
  assumes "\<forall>k. k \<le> length rows \<longrightarrow> rnd (real k * ti) = real k * ti" and "i < length rows"
  shows "total_invested (state_after rnd ti gp sp rows i) = real (Suc i) * ti"
  using assms(2)
proof (induction i)
  case 0
  then have "rows \<noteq> []" by auto
  moreover have "rnd (real 1 * ti) = real 1 * ti"
    using assms(1) 0 by (metis Suc_leI One_nat_def)
  ultimately show ?case by (simp add: state_after_0)
next
  case (Suc i)
  then have ih: "total_invested (state_after rnd ti gp sp rows i) = real (Suc i) * ti" by simp
  have "rnd (real (Suc (Suc i)) * ti) = real (Suc (Suc i)) * ti"
    using assms(1) Suc.prems by (metis Suc_leI)
  then show ?case
    using Suc.prems by (simp add: state_after_Suc ih algebra_simps)
qed

lemma invested_in_range:
  assumes "i < length rows"
  shows "\<exists>y. total_invested (state_after rnd ti gp sp rows i) = rnd y"
proof (cases i)
  case 0
  then show ?thesis using assms state_after_0 [of rows rnd ti gp sp] by auto
next
  case (Suc j)
  then show ?thesis using assms state_after_Suc [of j rows rnd ti gp sp] by auto
qed

lemma invested_mono:
  assumes mono: "\<forall>x y. x \<le> y \<longrightarrow> rnd x \<le> rnd y" and idem: "\<forall>x. rnd (rnd x) = rnd x"
    and ti: "0 \<le> ti" and "i \<le> j" and "j < length rows"
  shows "total_invested (state_after rnd ti gp sp rows i)
           \<le> total_invested (state_after rnd ti gp sp rows j)"
  using assms(4,5)
proof (induction j)
  case 0
  then show ?case by simp
next
  case (Suc j)
  show ?case
  proof (cases "i = Suc j")
    case True
    then show ?thesis by simp
  next
    case False
    then have le: "i \<le> j" and lt: "j < length rows" using Suc.prems by simp_all
    let ?e = "total_invested (state_after rnd ti gp sp rows j)"
    from invested_in_range [OF lt] obtain y where y: "?e = rnd y" by blast
    have "?e = rnd ?e" using idem y by simp
    also have "\<dots> \<le> rnd (?e + ti)" using mono ti by simp
    also have "\<dots> = total_invested (state_after rnd ti gp sp rows (Suc j))"
      using Suc.prems by (simp add: state_after_Suc)
    finally have "?e \<le> total_invested (state_after rnd ti gp sp rows (Suc j))" .
    with Suc.IH [OF le lt] show ?thesis by simp
  qed
qed

text \<open>
  Claim C4, as amended. Without rebalancing, the series of the invested total has one
  entry per eligible date. Its first entry is the monthly amount and every later entry
  is the float sum of the entry before and the monthly amount, whether or not shares
  were bought. So the \<open>i\<close>-th entry is \<open>(i + 1)\<close> times the monthly amount exactly when
  these multiples are floats (as for a whole amount), and up to rounding otherwise; and
  for a monthly amount that is not negative the series never decreases, rounding being
  monotone and leaving floats unchanged. An empty frequency string is no rebalancing.
  With one of the four frequencies the series returned is this series resampled, each
  period keeping its last value.
\<close>

theorem C4_cumulative_invested:
  assumes "calculate_dca rnd A B ti gp sp start None = Inr (pv, ci)"
  shows "length ci = length (eligible_rows A B start) \<and>
         snd (ci ! 0) = Some (rnd ti) \<and>
         (\<forall>i. Suc i < length ci \<longrightarrow>
            (\<exists>v. snd (ci ! i) = Some v \<and> snd (ci ! Suc i) = Some (rnd (v + ti)))) \<and>
         ((\<forall>k. k \<le> length ci \<longrightarrow> rnd (real k * ti) = real k * ti) \<longrightarrow>
            (\<forall>i<length ci. snd (ci ! i) = Some (real (Suc i) * ti))) \<and>
         ((\<forall>x y. x \<le> y \<longrightarrow> rnd x \<le> rnd y) \<and> (\<forall>x. rnd (rnd x) = rnd x) \<and> 0 \<le> ti \<longrightarrow>
            (\<forall>i j v w. i \<le> j \<and> j < length ci \<and> snd (ci ! i) = Some v \<and> snd (ci ! j) = Some w
               \<longrightarrow> v \<le> w)) \<and>
         calculate_dca rnd A B ti gp sp start (Some []) = Inr (pv, ci) \<and>
         (\<forall>f rule. map_of rebalance_period f = Some rule \<longrightarrow>
            (\<exists>off. map_of to_offset rule = Some off \<and>
               calculate_dca rnd A B ti gp sp start (Some f) =
                 Inr (resample_last off pv, resample_last off ci)))"
proof -
  let ?rows = "eligible_rows A B start"
  let ?st = "foldl (\<lambda>st r. dca_step rnd ti gp sp (fst (snd r)) (snd (snd r)) st) init_state ?rows"
  let ?e = "\<lambda>i. total_invested (state_after rnd ti gp sp ?rows i)"
  have ne: "?rows \<noteq> []"
    using assms unfolding calculate_dca_plain [of None, simplified] Let_def
    by (simp split: if_splits)
  have ci: "ci = make_series (cumulative_invested ?st) (loc_from start A)"
    using assms unfolding calculate_dca_plain [of None, simplified] Let_def
    by (simp split: if_splits)
  have vals: "cumulative_invested ?st = map ?e [0..<length ?rows]"
    by (simp add: foldl_step_cumulative init_state_def state_after_def)
  have le: "length (cumulative_invested ?st) \<le> length (loc_from start A)"
    using eligible_rows_length [of A B start] by (simp add: vals)
  have snd_ci: "map snd ci = map (\<lambda>i. Some (?e i)) [0..<length ?rows]"
    unfolding ci make_series_snd [OF le] by (simp add: vals)
  have len: "length ci = length ?rows"
    using arg_cong [OF snd_ci, of length] by simp
  have nth: "snd (ci ! i) = Some (?e i)" if "i < length ci" for i
  proof -
    have "snd (ci ! i) = map snd ci ! i" using that by simp
    also have "\<dots> = Some (?e i)"
      using that len unfolding snd_ci by simp
    finally show ?thesis .
  qed
  have first: "snd (ci ! 0) = Some (rnd ti)"
    using nth [of 0] ne len state_after_0 [OF ne, of rnd ti gp sp] by simp
  have step: "\<exists>v. snd (ci ! i) = Some v \<and> snd (ci ! Suc i) = Some (rnd (v + ti))"
    if "Suc i < length ci" for i
    using nth [of i] nth [of "Suc i"] that len state_after_Suc [of i ?rows rnd ti gp sp]
    by simp
  have exact: "\<forall>i<length ci. snd (ci ! i) = Some (real (Suc i) * ti)"
    if "\<forall>k. k \<le> length ci \<longrightarrow> rnd (real k * ti) = real k * ti"
  proof (intro allI impI)
    fix i assume i: "i < length ci"
    from that have "\<forall>k. k \<le> length ?rows \<longrightarrow> rnd (real k * ti) = real k * ti"
      by (simp add: len)
    from invested_exact [OF this, of i gp sp] i len nth [OF i]
    show "snd (ci ! i) = Some (real (Suc i) * ti)" by simp
  qed
  have mono: "v \<le> w"
    if "\<forall>x y. x \<le> y \<longrightarrow> rnd x \<le> rnd y" "\<forall>x. rnd (rnd x) = rnd x" "0 \<le> ti"
      "i \<le> j" "j < length ci" "snd (ci ! i) = Some v" "snd (ci ! j) = Some w"
    for i j v w
  proof -
    have "v = ?e i" "w = ?e j"
      using nth [of i] nth [of j] that by simp_all
    then show ?thesis
      using invested_mono [OF that(1,2,3,4), of ?rows gp sp] that(5) len by simp
  qed
  have empty: "calculate_dca rnd A B ti gp sp start (Some []) = Inr (pv, ci)"
    using assms
    unfolding calculate_dca_plain [of None, simplified] calculate_dca_plain [of "Some []", simplified]
    by simp
  have reb: "\<exists>off. map_of to_offset rule = Some off \<and>
               calculate_dca rnd A B ti gp sp start (Some f) =
                 Inr (resample_last off pv, resample_last off ci)"
    if f: "map_of rebalance_period f = Some rule" for f rule
  proof -
    from rebalance_period_offset [OF f] obtain off
      where off: "map_of to_offset rule = Some off" by blast
    show ?thesis
      using calculate_dca_rebalanced [OF f off, of rnd A B ti gp sp start] off assms by simp
  qed
  show ?thesis
    using len first step exact mono empty reb by blast
qed

theorem C4_cumulative_invested_witness:
  "calculate_dca (\<lambda>x. x) [((2021, 1, 31), 100), ((2021, 2, 28), 100)]
                 [((2021, 1, 31), 10), ((2021, 2, 28), 10)] 1000 50 50 (2021, 1, 31) None
     = Inr ([((2021, 1, 31), Some 1000), ((2021, 2, 28), Some 2000)],
            [((2021, 1, 31), Some 1000), ((2021, 2, 28), Some 2000)]) \<and>
   snd (([((2021, 1, 31), Some 1000), ((2021, 2, 28), Some 2000)]::series) ! 1)
     = Some (real (Suc 1) * 1000) \<and>
   length ([((2021, 1, 31), Some 1000), ((2021, 2, 28), Some 2000)]::series)
     = length (eligible_rows [((2021, 1, 31), 100), ((2021, 2, 28), 100)]
                 [((2021, 1, 31), 10), ((2021, 2, 28), 10)] (2021, 1, 31))"
proof -
  let ?ci = "([((2021, 1, 31), Some 1000), ((2021, 2, 28), Some 2000)]::series)"
  note t = C4_cumulative_invested [OF ev_2021]
  have len: "length ?ci = length (eligible_rows [((2021, 1, 31), 100), ((2021, 2, 28), 100)]
                 [((2021, 1, 31), 10), ((2021, 2, 28), 10)] (2021, 1, 31))"
    by (rule t [THEN conjunct1])
  have imp: "(\<forall>k. k \<le> length ?ci \<longrightarrow> (\<lambda>x. x) (real k * 1000) = real k * 1000) \<longrightarrow>
      (\<forall>i<length ?ci. snd (?ci ! i) = Some (real (Suc i) * 1000))"
    by (rule t [THEN conjunct2, THEN conjunct2, THEN conjunct2, THEN conjunct1])
  have "\<forall>k. k \<le> length ?ci \<longrightarrow> (\<lambda>x. x) (real k * 1000) = real k * 1000"
    by simp
  with imp have "\<forall>i<length ?ci. snd (?ci ! i) = Some (real (Suc i) * 1000)"
    by (rule mp)
  then have e: "snd (?ci ! 1) = Some (real (Suc 1) * 1000)"
    by simp
  show ?thesis
    by (intro conjI) (rule ev_2021, rule e, rule len)
qed

text \<open>
  The claim as stated fails with a rebalancing frequency: two months of 1000 with
  quarterly rebalancing give the single entry 2000, not 1000.
\<close>

theorem C4_counterexample:
  "calculate_dca (\<lambda>x. x) [((2021, 1, 31), 100), ((2021, 2, 28), 100)]
                 [((2021, 1, 31), 10), ((2021, 2, 28), 10)] 1000 50 50 (2021, 1, 31)
                 (Some ''quarterly'')
     = Inr ([((2021, 3, 31), Some 2000)], [((2021, 3, 31), Some 2000)]) \<and>
   Some (2000::real) \<noteq> Some (real (Suc 0) * 1000)"
proof -
  have 1: "map_of rebalance_period ''quarterly'' = Some ''Q''"
    by (simp add: rebalance_period_def)
  have 2: "map_of to_offset ''Q'' = Some (1, 3)"
    by (simp add: to_offset_def)
  show ?thesis
    unfolding calculate_dca_rebalanced [OF 1 2] ev_2021 sum.case prod.case ev_2021_q by simp
qed

section \<open>Rebalancing\<close>

text \<open>
  Claim C8. For each of the four rebalancing frequencies, the result of \<open>calculate_dca\<close>
  is the result of the same call without rebalancing with both series resampled to that
  frequency, each period keeping its last value; a failing call fails in both. The
  share counts are those of \<open>dca_loop\<close>, which does not take the frequency: the loop
  and its purchases are the same in the two runs.
\<close>

theorem C8_rebalance_is_resampling:
  assumes "map_of rebalance_period f = Some rule"
  shows "\<exists>off. map_of to_offset rule = Some off \<and>
           calculate_dca rnd gold_monthly snp500_monthly ti gp sp start_date (Some f) =
             (case calculate_dca rnd gold_monthly snp500_monthly ti gp sp start_date None of
                Inl e \<Rightarrow> Inl e
              | Inr (pv, ci) \<Rightarrow> Inr (resample_last off pv, resample_last off ci))"
proof -
  from rebalance_period_offset [OF assms] obtain off
    where off: "map_of to_offset rule = Some off" by blast
  from calculate_dca_rebalanced [OF assms off] off show ?thesis by blast
qed

theorem C8_rebalance_is_resampling_witness:
  "map_of rebalance_period ''semiannually'' = Some ''2Q'' \<and>
   calculate_dca (\<lambda>x. x) [((2022, 1, 31), 100), ((2022, 2, 28), 100), ((2022, 3, 31), 100), ((2022, 8, 31), 200)]
                 [((2022, 1, 31), 10), ((2022, 2, 28), 10), ((2022, 3, 31), 10), ((2022, 8, 31), 10)]
                 1000 50 50 (2022, 1, 31) (Some ''semiannually'')
     = Inr ([((2022, 3, 31), Some 3000), ((2022, 9, 30), Some 5500)],
            [((2022, 3, 31), Some 3000), ((2022, 9, 30), Some 4000)])"
proof -
  have 1: "map_of rebalance_period ''semiannually'' = Some ''2Q''"
    by (simp add: rebalance_period_def)
  have 2: "map_of to_offset ''2Q'' = Some (2, 3)"
    by (simp add: to_offset_def)
  from C8_rebalance_is_resampling [OF 1, where rnd = "\<lambda>x. x"
      and gold_monthly = "[((2022, 1, 31), 100), ((2022, 2, 28), 100), ((2022, 3, 31), 100), ((2022, 8, 31), 200)]"
      and snp500_monthly = "[((2022, 1, 31), 10), ((2022, 2, 28), 10), ((2022, 3, 31), 10), ((2022, 8, 31), 10)]"
      and ti = 1000 and gp = 50 and sp = 50 and start_date = "(2022, 1, 31)"]
  obtain off where
    o: "map_of to_offset ''2Q'' = Some off" and
    c: "calculate_dca (\<lambda>x. x) [((2022, 1, 31), 100), ((2022, 2, 28), 100), ((2022, 3, 31), 100), ((2022, 8, 31), 200)]
                 [((2022, 1, 31), 10), ((2022, 2, 28), 10), ((2022, 3, 31), 10), ((2022, 8, 31), 10)]
                 1000 50 50 (2022, 1, 31) (Some ''semiannually'') =
          (case calculate_dca (\<lambda>x. x) [((2022, 1, 31), 100), ((2022, 2, 28), 100), ((2022, 3, 31), 100), ((2022, 8, 31), 200)]
                 [((2022, 1, 31), 10), ((2022, 2, 28), 10), ((2022, 3, 31), 10), ((2022, 8, 31), 10)]
                 1000 50 50 (2022, 1, 31) None of
                Inl e \<Rightarrow> Inl e
              | Inr (pv, ci) \<Rightarrow> Inr (resample_last off pv, resample_last off ci))"
    by blast
  from o 2 have off: "off = (2, 3)" by simp
  show ?thesis
    unfolding c off ev_2022 sum.case prod.case ev_2022_h1 ev_2022_h2
    using 1 by simp
qed

section \<open>Several scenarios\<close>

lemma collect_from_Inr:
  "collect_from rnd k inputs ((date0, p0) # gold) snp = Inr results \<Longrightarrow>
   length results = length inputs \<and>
   (\<forall>i<length inputs.
      calculate_dca rnd ((date0, p0) # gold) snp (total_invest_in (inputs ! i))
        (gold_percentage_in (inputs ! i)) (rnd (100 - gold_percentage_in (inputs ! i))) date0
        (rebalance_frequency_of (inputs ! i))
      = Inr (fst (results ! i), fst (snd (results ! i))) \<and>
      snd (snd (results ! i)) =
        (Suc (k + i), total_invest_in (inputs ! i), gold_percentage_in (inputs ! i),
         rnd (100 - gold_percentage_in (inputs ! i)), rebalance_frequency_of (inputs ! i)))"
proof (induction inputs arbitrary: k results)
  case Nil
  then show ?case by simp
next
  case (Cons c cs)
  from Cons.prems obtain pv ci rest where
    run: "calculate_dca rnd ((date0, p0) # gold) snp (total_invest_in c) (gold_percentage_in c)
            (rnd (100 - gold_percentage_in c)) date0 (rebalance_frequency_of c) = Inr (pv, ci)"
    and rest: "collect_from rnd (Suc k) cs ((date0, p0) # gold) snp = Inr rest"
    and res: "results = (pv, ci, (Suc k, total_invest_in c, gold_percentage_in c,
                 rnd (100 - gold_percentage_in c), rebalance_frequency_of c)) # rest"
    by (auto simp: Let_def split: sum.splits)
  from Cons.IH [OF rest] have ih:
    "length rest = length cs"
    "\<And>i. i < length cs \<Longrightarrow>
      calculate_dca rnd ((date0, p0) # gold) snp (total_invest_in (cs ! i))
        (gold_percentage_in (cs ! i)) (rnd (100 - gold_percentage_in (cs ! i))) date0
        (rebalance_frequency_of (cs ! i))
      = Inr (fst (rest ! i), fst (snd (rest ! i))) \<and>
      snd (snd (rest ! i)) =
        (Suc (Suc k + i), total_invest_in (cs ! i), gold_percentage_in (cs ! i),
         rnd (100 - gold_percentage_in (cs ! i)), rebalance_frequency_of (cs ! i))"
    by simp_all
  show ?case
  proof (intro conjI allI impI)
    show "length results = length (c # cs)" using ih(1) res by simp
  next
    fix i assume "i < length (c # cs)"
    then show "calculate_dca rnd ((date0, p0) # gold) snp (total_invest_in ((c # cs) ! i))
        (gold_percentage_in ((c # cs) ! i)) (rnd (100 - gold_percentage_in ((c # cs) ! i))) date0
        (rebalance_frequency_of ((c # cs) ! i))
      = Inr (fst (results ! i), fst (snd (results ! i)))"
      using run ih(2) res by (cases i) simp_all
  next
    fix i assume "i < length (c # cs)"
    then show "snd (snd (results ! i)) =
        (Suc (k + i), total_invest_in ((c # cs) ! i), gold_percentage_in ((c # cs) ! i),
         rnd (100 - gold_percentage_in ((c # cs) ! i)), rebalance_frequency_of ((c # cs) ! i))"
      using run ih(2) res by (cases i) simp_all
  qed
qed

text \<open>The error of the call is the error of the first scenario that fails.\<close>

lemma collect_from_first_failure:
  "i < length inputs \<Longrightarrow>
   calculate_dca rnd ((date0, p0) # gold) snp (total_invest_in (inputs ! i))
        (gold_percentage_in (inputs ! i)) (rnd (100 - gold_percentage_in (inputs ! i))) date0
        (rebalance_frequency_of (inputs ! i)) = Inl e \<Longrightarrow>
   (\<forall>j<i. \<forall>e'.
      calculate_dca rnd ((date0, p0) # gold) snp (total_invest_in (inputs ! j))
        (gold_percentage_in (inputs ! j)) (rnd (100 - gold_percentage_in (inputs ! j))) date0
        (rebalance_frequency_of (inputs ! j)) \<noteq> Inl e') \<Longrightarrow>
   collect_from rnd k inputs ((date0, p0) # gold) snp = Inl e"
proof (induction inputs arbitrary: k i)
  case Nil
  then show ?case by simp
next
  case (Cons c cs)
  show ?case
  proof (cases i)
    case 0
    then show ?thesis using Cons.prems(2) by (simp add: Let_def)
  next
    case (Suc i')
    have ok: "calculate_dca rnd ((date0, p0) # gold) snp (total_invest_in c)
        (gold_percentage_in c) (rnd (100 - gold_percentage_in c)) date0
        (rebalance_frequency_of c) \<noteq> Inl e'" for e'
      using Cons.prems(3) Suc by force
    then obtain pv ci where run: "calculate_dca rnd ((date0, p0) # gold) snp (total_invest_in c)
        (gold_percentage_in c) (rnd (100 - gold_percentage_in c)) date0
        (rebalance_frequency_of c) = Inr (pv, ci)"
      by (metis sum.exhaust surj_pair)
    have "collect_from rnd (Suc k) cs ((date0, p0) # gold) snp = Inl e"
    proof (rule Cons.IH [of i'])
      show "i' < length cs" using Cons.prems(1) Suc by simp
      show "calculate_dca rnd ((date0, p0) # gold) snp (total_invest_in (cs ! i'))
        (gold_percentage_in (cs ! i')) (rnd (100 - gold_percentage_in (cs ! i'))) date0
        (rebalance_frequency_of (cs ! i')) = Inl e"
        using Cons.prems(2) Suc by simp
      show "\<forall>j<i'. \<forall>e'.
        calculate_dca rnd ((date0, p0) # gold) snp (total_invest_in (cs ! j))
          (gold_percentage_in (cs ! j)) (rnd (100 - gold_percentage_in (cs ! j))) date0
          (rebalance_frequency_of (cs ! j)) \<noteq> Inl e'"
      proof (intro allI impI)
        fix j e' assume "j < i'"
        then have "Suc j < i" using Suc by simp
        with Cons.prems(3) show "calculate_dca rnd ((date0, p0) # gold) snp (total_invest_in (cs ! j))
          (gold_percentage_in (cs ! j)) (rnd (100 - gold_percentage_in (cs ! j))) date0
          (rebalance_frequency_of (cs ! j)) \<noteq> Inl e'"
          by (metis nth_Cons_Suc)
      qed
    qed
    then show ?thesis
      using run by (simp add: Let_def)
  qed
qed

lemma collect_from_Inl:
  "i < length inputs \<Longrightarrow>
   calculate_dca rnd ((date0, p0) # gold) snp (total_invest_in (inputs ! i))
        (gold_percentage_in (inputs ! i)) (rnd (100 - gold_percentage_in (inputs ! i))) date0
        (rebalance_frequency_of (inputs ! i)) = Inl e \<Longrightarrow>
   \<exists>e'. collect_from rnd k inputs ((date0, p0) # gold) snp = Inl e'"
proof (induction inputs arbitrary: k i)
  case Nil
  then show ?case by simp
next
  case (Cons c cs)
  show ?case
  proof (cases i)
    case 0
    then show ?thesis using Cons.prems by (simp add: Let_def)
  next
    case (Suc j)
    then have "\<exists>e'. collect_from rnd (Suc k) cs ((date0, p0) # gold) snp = Inl e'"
      using Cons.IH [of j "Suc k"] Cons.prems by simp
    then show ?thesis
      by (auto simp: Let_def split: sum.splits)
  qed
qed

text \<open>
  Claim C9, as amended. \<open>collect_dca_scenarios\<close> does not isolate failures. When it
  returns, every scenario has succeeded and the results are those of the scenarios in
  their order, each with its label. As soon as one scenario fails, the whole call fails
  and returns no result, also for the scenarios that succeed on their own; the error of
  the call is the error of the first scenario that fails.
\<close>

theorem C9_failure_aborts_all:
  "(collect_dca_scenarios rnd inputs ((date0, p0) # gold) snp = Inr results \<longrightarrow>
      length results = length inputs \<and>
      (\<forall>i<length inputs.
         calculate_dca rnd ((date0, p0) # gold) snp (total_invest_in (inputs ! i))
           (gold_percentage_in (inputs ! i)) (rnd (100 - gold_percentage_in (inputs ! i))) date0
           (rebalance_frequency_of (inputs ! i))
         = Inr (fst (results ! i), fst (snd (results ! i))) \<and>
         snd (snd (results ! i)) =
           (Suc i, total_invest_in (inputs ! i), gold_percentage_in (inputs ! i),
            rnd (100 - gold_percentage_in (inputs ! i)), rebalance_frequency_of (inputs ! i)))) \<and>
   (\<forall>i e. i < length inputs \<and>
      calculate_dca rnd ((date0, p0) # gold) snp (total_invest_in (inputs ! i))
           (gold_percentage_in (inputs ! i)) (rnd (100 - gold_percentage_in (inputs ! i))) date0
           (rebalance_frequency_of (inputs ! i)) = Inl e \<longrightarrow>
      (\<exists>e'. collect_dca_scenarios rnd inputs ((date0, p0) # gold) snp = Inl e')) \<and>
   (\<forall>i e. i < length inputs \<and>
      calculate_dca rnd ((date0, p0) # gold) snp (total_invest_in (inputs ! i))
           (gold_percentage_in (inputs ! i)) (rnd (100 - gold_percentage_in (inputs ! i))) date0
           (rebalance_frequency_of (inputs ! i)) = Inl e \<and>
      (\<forall>j<i. \<forall>e'.
         calculate_dca rnd ((date0, p0) # gold) snp (total_invest_in (inputs ! j))
           (gold_percentage_in (inputs ! j)) (rnd (100 - gold_percentage_in (inputs ! j))) date0
           (rebalance_frequency_of (inputs ! j)) \<noteq> Inl e') \<longrightarrow>
      collect_dca_scenarios rnd inputs ((date0, p0) # gold) snp = Inl e)"
proof -
  have a: "collect_dca_scenarios rnd inputs ((date0, p0) # gold) snp = Inr results \<longrightarrow>
      length results = length inputs \<and>
      (\<forall>i<length inputs.
         calculate_dca rnd ((date0, p0) # gold) snp (total_invest_in (inputs ! i))
           (gold_percentage_in (inputs ! i)) (rnd (100 - gold_percentage_in (inputs ! i))) date0
           (rebalance_frequency_of (inputs ! i))
         = Inr (fst (results ! i), fst (snd (results ! i))) \<and>
         snd (snd (results ! i)) =
           (Suc i, total_invest_in (inputs ! i), gold_percentage_in (inputs ! i),
            rnd (100 - gold_percentage_in (inputs ! i)), rebalance_frequency_of (inputs ! i)))"
    unfolding collect_dca_scenarios_def
    using collect_from_Inr [of rnd 0 inputs date0 p0 gold snp results]
    by auto
  have b: "\<forall>i e. i < length inputs \<and>
      calculate_dca rnd ((date0, p0) # gold) snp (total_invest_in (inputs ! i))
           (gold_percentage_in (inputs ! i)) (rnd (100 - gold_percentage_in (inputs ! i))) date0
           (rebalance_frequency_of (inputs ! i)) = Inl e \<longrightarrow>
      (\<exists>e'. collect_dca_scenarios rnd inputs ((date0, p0) # gold) snp = Inl e')"
    unfolding collect_dca_scenarios_def using collect_from_Inl by blast
  have c: "\<forall>i e. i < length inputs \<and>
      calculate_dca rnd ((date0, p0) # gold) snp (total_invest_in (inputs ! i))
           (gold_percentage_in (inputs ! i)) (rnd (100 - gold_percentage_in (inputs ! i))) date0
           (rebalance_frequency_of (inputs ! i)) = Inl e \<and>
      (\<forall>j<i. \<forall>e'.
         calculate_dca rnd ((date0, p0) # gold) snp (total_invest_in (inputs ! j))
           (gold_percentage_in (inputs ! j)) (rnd (100 - gold_percentage_in (inputs ! j))) date0
           (rebalance_frequency_of (inputs ! j)) \<noteq> Inl e') \<longrightarrow>
      collect_dca_scenarios rnd inputs ((date0, p0) # gold) snp = Inl e"
  proof (intro allI impI)
    fix i e
    assume h: "i < length inputs \<and>
      calculate_dca rnd ((date0, p0) # gold) snp (total_invest_in (inputs ! i))
           (gold_percentage_in (inputs ! i)) (rnd (100 - gold_percentage_in (inputs ! i))) date0
           (rebalance_frequency_of (inputs ! i)) = Inl e \<and>
      (\<forall>j<i. \<forall>e'.
         calculate_dca rnd ((date0, p0) # gold) snp (total_invest_in (inputs ! j))
           (gold_percentage_in (inputs ! j)) (rnd (100 - gold_percentage_in (inputs ! j))) date0
           (rebalance_frequency_of (inputs ! j)) \<noteq> Inl e')"
    show "collect_dca_scenarios rnd inputs ((date0, p0) # gold) snp = Inl e"
      unfolding collect_dca_scenarios_def
      by (rule collect_from_first_failure [of i]) (use h in simp_all)
  qed
  show ?thesis
    by (intro conjI) (rule a, rule b, rule c)
qed

theorem C9_failure_aborts_all_witness:
  "calculate_dca (\<lambda>x. x) [((2023, 1, 31), 100)] [((2023, 1, 31), 10)] 1000 50 (100 - 50) (2023, 1, 31)
      (Some ''weekly'') = Inl FrequencyError \<and>
   collect_dca_scenarios (\<lambda>x. x)
     [\<lparr>total_invest_in = 1000, gold_percentage_in = 50, rebalance_in = ''no'', frequency_in = ''''\<rparr>,
      \<lparr>total_invest_in = 1000, gold_percentage_in = 50, rebalance_in = ''yes'', frequency_in = ''weekly''\<rparr>]
     [((2023, 1, 31), 100)] [((2023, 1, 31), 10)] = Inl FrequencyError"
proof -
  let ?inputs = "[\<lparr>total_invest_in = 1000, gold_percentage_in = 50, rebalance_in = ''no'', frequency_in = ''''\<rparr>,
      \<lparr>total_invest_in = 1000, gold_percentage_in = 50, rebalance_in = ''yes'', frequency_in = ''weekly''\<rparr>]"
  let ?run = "\<lambda>i. calculate_dca (\<lambda>x. x) (((2023, 1, 31), 100) # []) [((2023, 1, 31), 10)]
           (total_invest_in (?inputs ! i)) (gold_percentage_in (?inputs ! i))
           ((\<lambda>x. x) (100 - gold_percentage_in (?inputs ! i))) (2023, 1, 31)
           (rebalance_frequency_of (?inputs ! i))"
  have bad: "?run 1 = Inl FrequencyError"
    using ev_2023_bad by (simp add: rebalance_frequency_of_def)
  have good: "\<forall>j<1. \<forall>e'. ?run j \<noteq> Inl e'"
    using ev_2023_good by (simp add: rebalance_frequency_of_def)
  note t = C9_failure_aborts_all [where rnd = "\<lambda>x. x" and inputs = ?inputs
      and ?date0.0 = "(2023, 1, 31)" and ?p0.0 = 100 and gold = "[]"
      and snp = "[((2023, 1, 31), 10)]" and results = "[]",
      THEN conjunct2, THEN conjunct2, rule_format, of 1 FrequencyError]
  have "collect_dca_scenarios (\<lambda>x. x) ?inputs [((2023, 1, 31), 100)] [((2023, 1, 31), 10)]
      = Inl FrequencyError"
    by (rule t) (use bad good in simp)
  then show ?thesis
    using ev_2023_bad by simp
qed

text \<open>
  The claim as stated fails: a first scenario with an unknown frequency aborts the run,
  although the second scenario succeeds on its own.
\<close>

theorem C9_counterexample:
  "collect_dca_scenarios (\<lambda>x. x)
     [\<lparr>total_invest_in = 1000, gold_percentage_in = 50, rebalance_in = ''yes'', frequency_in = ''weekly''\<rparr>,
      \<lparr>total_invest_in = 1000, gold_percentage_in = 50, rebalance_in = ''no'', frequency_in = ''''\<rparr>]
     [((2023, 1, 31), 100)] [((2023, 1, 31), 10)] = Inl FrequencyError \<and>
   calculate_dca (\<lambda>x. x) [((2023, 1, 31), 100)] [((2023, 1, 31), 10)] 1000 50 (100 - 50) (2023, 1, 31)
     (rebalance_frequency_of
        \<lparr>total_invest_in = 1000, gold_percentage_in = 50, rebalance_in = ''no'', frequency_in = ''''\<rparr>)
     = Inr ([((2023, 1, 31), Some 1000)], [((2023, 1, 31), Some 1000)])"
  using ev_2023_good ev_2023_bad
  by (simp add: collect_dca_scenarios_def rebalance_frequency_of_def)

section \<open>Cleaning of the two frames\<close>

lemma drop_duplicates_from_keys:
  "fst ` set (drop_duplicates_from seen rows) = fst ` set rows - set seen"
  by (induction seen rows rule: drop_duplicates_from.induct) auto

lemma drop_duplicates_from_distinct:
  "distinct (map fst (drop_duplicates_from seen rows))"
  by (induction seen rows rule: drop_duplicates_from.induct)
     (auto simp: drop_duplicates_from_keys)

lemma drop_duplicates_from_map_of:
  "map_of (drop_duplicates_from seen rows) k = (if k \<in> set seen then None else map_of rows k)"
proof (induction seen rows rule: drop_duplicates_from.induct)
  case (1 seen)
  show ?case by simp
next
  case (2 seen r rs)
  obtain k' v where r: "r = (k', v)" by (cases r)
  show ?case
    using 2 by (auto simp: r)
qed

lemma drop_duplicates_from_subseq: "subseq (drop_duplicates_from seen rows) rows"
  by (induction seen rows rule: drop_duplicates_from.induct) auto

lemma drop_duplicates_from_subset: "set (drop_duplicates_from seen rows) \<subseteq> set rows"
  by (induction seen rows rule: drop_duplicates_from.induct) auto

lemma drop_duplicates_from_unique:
  "distinct (map fst rows) \<Longrightarrow> set seen \<inter> fst ` set rows = {} \<Longrightarrow>
   drop_duplicates_from seen rows = rows"
  by (induction seen rows rule: drop_duplicates_from.induct) auto

lemma those_map_total:
  "(\<forall>r\<in>set rows. f r \<noteq> None) \<Longrightarrow> those (map f rows) = Some (map (\<lambda>r. the (f r)) rows)"
  by (induction rows) auto

lemma clean_frame_Some:
  assumes "\<forall>r\<in>set rows. to_datetime (fst r) \<noteq> None"
  shows "clean_frame to_datetime (Some rows) =
           Inr (map (\<lambda>r. (the (to_datetime (fst r)), snd r)) (drop_duplicates rows))"
proof -
  have sub: "set (drop_duplicates rows) \<subseteq> set rows"
    by (simp add: drop_duplicates_def drop_duplicates_from_subset)
  then have "\<forall>r\<in>set (drop_duplicates rows).
      map_option (\<lambda>d. (d, snd r)) (to_datetime (fst r)) \<noteq> None"
    using assms by auto
  from those_map_total [of "drop_duplicates rows"
      "\<lambda>r. map_option (\<lambda>d. (d, snd r)) (to_datetime (fst r))", OF this]
  have "those (map (\<lambda>r. map_option (\<lambda>d. (d, snd r)) (to_datetime (fst r))) (drop_duplicates rows))
      = Some (map (\<lambda>r. (the (to_datetime (fst r)), snd r)) (drop_duplicates rows))"
  proof -
    have "the (map_option (\<lambda>d. (d, snd r)) (to_datetime (fst r))) = (the (to_datetime (fst r)), snd r)"
      if "r \<in> set (drop_duplicates rows)" for r
    proof -
      from that sub assms obtain d where "to_datetime (fst r) = Some d" by blast
      then show ?thesis by simp
    qed
    then have "map (\<lambda>r. the (map_option (\<lambda>d. (d, snd r)) (to_datetime (fst r)))) (drop_duplicates rows)
       = map (\<lambda>r. (the (to_datetime (fst r)), snd r)) (drop_duplicates rows)"
      by simp
    with \<open>those _ = Some _\<close> show ?thesis by simp
  qed
  then show ?thesis
    by (simp add: clean_frame_def set_index_datetime_def)
qed

text \<open>
  Claim C10. When every \<^verbatim>\<open>Date\<close> cell parses, \<open>clean_data\<close> returns both frames with
  their duplicates dropped and their index parsed. The rows kept of each frame have
  pairwise different dates and stand in their original order; for every date the row
  kept is the first row of the input with that date (\<open>map_of\<close> finds the first row
  of a key), so its values are those of that row and not an average; a frame whose dates
  are all different keeps all its rows.
\<close>

theorem C10_keep_first:
  assumes "\<forall>r\<in>set gold. to_datetime (fst r) \<noteq> None"
    and "\<forall>r\<in>set snp. to_datetime (fst r) \<noteq> None"
  shows "clean_data to_datetime (Some gold) (Some snp) =
           Inr (map (\<lambda>r. (the (to_datetime (fst r)), snd r)) (drop_duplicates gold),
                map (\<lambda>r. (the (to_datetime (fst r)), snd r)) (drop_duplicates snp)) \<and>
         distinct (map fst (drop_duplicates gold)) \<and>
         distinct (map fst (drop_duplicates snp)) \<and>
         (\<forall>k. map_of (drop_duplicates gold) k = map_of gold k) \<and>
         (\<forall>k. map_of (drop_duplicates snp) k = map_of snp k) \<and>
         subseq (drop_duplicates gold) gold \<and>
         subseq (drop_duplicates snp) snp \<and>
         (distinct (map fst gold) \<longrightarrow> drop_duplicates gold = gold) \<and>
         (distinct (map fst snp) \<longrightarrow> drop_duplicates snp = snp)"
  using clean_frame_Some [OF assms(1)] clean_frame_Some [OF assms(2)]
  by (simp add: clean_data_def drop_duplicates_def drop_duplicates_from_distinct
        drop_duplicates_from_map_of drop_duplicates_from_subseq drop_duplicates_from_unique)

theorem C10_keep_first_witness:
  "clean_data (\<lambda>k::nat. Some k) (Some [(1, 10::int), (1, 20), (2, 30)]) (Some [(5, 1::int)])
     = Inr ([(1, 10), (2, 30)], [(5, 1)])"
proof -
  have d: "drop_duplicates [(1::nat, 10::int), (1, 20), (2, 30)] = [(1, 10), (2, 30)]"
       "drop_duplicates [(5::nat, 1::int)] = [(5, 1)]"
    by (simp_all add: drop_duplicates_def)
  from C10_keep_first [of "[(1::nat, 10::int), (1, 20), (2, 30)]" "\<lambda>k. Some k" "[(5::nat, 1::int)]"]
  show ?thesis
    unfolding d by simp
qed

section \<open>Duplicate dates in the cleaning script\<close>

lemma first_appearance_set: "set (first_appearance seen ks) = set ks - set seen"
  by (induction seen ks rule: first_appearance.induct) auto

lemma first_appearance_distinct: "distinct (first_appearance seen ks)"
  by (induction seen ks rule: first_appearance.induct) (auto simp: first_appearance_set)

lemma first_appearance_sorted: "sorted ks \<Longrightarrow> sorted (first_appearance seen ks)"
  by (induction seen ks rule: first_appearance.induct) (auto simp: first_appearance_set)

lemma first_appearance_unique:
  "distinct ks \<Longrightarrow> set seen \<inter> set ks = {} \<Longrightarrow> first_appearance seen ks = ks"
  by (induction seen ks rule: first_appearance.induct) auto

lemma first_appearance_of_sorted:
  fixes ks :: "'a::linorder list"
  assumes "sorted ks"
  shows "first_appearance [] ks = sort (remdups ks)"
proof (rule sorted_distinct_set_unique)
  show "sorted (first_appearance [] ks)" by (rule first_appearance_sorted [OF assms])
  show "distinct (first_appearance [] ks)" by (rule first_appearance_distinct)
  show "sorted (sort (remdups ks))" by simp
  show "distinct (sort (remdups ks))" by simp
  show "set (first_appearance [] ks) = set (sort (remdups ks))"
    by (simp add: first_appearance_set)
qed

lemma map_of_tabulate:
  "map_of (map (\<lambda>k. (k, f k)) ks) d = (if d \<in> set ks then Some (f d) else None)"
  by (induction ks) auto

lemma groupby_mean_keys: "map fst (groupby_mean df) = sort (remdups (map fst df))"
  by (simp add: groupby_mean_def comp_def)

lemma groupby_mean_map_of:
  "d \<in> fst ` set df \<Longrightarrow> map_of (groupby_mean df) d = Some (group_mean (group_of df d))"
  by (simp add: groupby_mean_def map_of_tabulate)

lemma group_of_unique:
  "distinct (map fst df) \<Longrightarrow> (d, v) \<in> set df \<Longrightarrow> group_of df d = [v]"
proof (induction df)
  case Nil
  then show ?case by simp
next
  case (Cons r df)
  show ?case
  proof (cases "r = (d, v)")
    case True
    then have "filter (\<lambda>r. fst r = d) df = []"
      using Cons.prems(1) by (auto simp: filter_empty_conv)
    then show ?thesis using True by (simp add: group_of_def)
  next
    case False
    then have in_df: "(d, v) \<in> set df" using Cons.prems(2) by simp
    then have "d \<in> fst ` set df" by (metis fst_conv image_eqI)
    then have "fst r \<noteq> d" using Cons.prems(1) by auto
    then show ?thesis
      using Cons.IH in_df Cons.prems(1) by (simp add: group_of_def)
  qed
qed

lemma group_mean_single: "group_mean [v] = v"
  by (simp add: group_mean_def)

lemma handle_duplicates_map_of:
  assumes "d \<in> fst ` set df"
  shows "map_of (handle_duplicates df) d = Some (group_mean (group_of df d))"
proof (cases "distinct (map fst df)")
  case True
  from assms obtain v where v: "(d, v) \<in> set df" by auto
  then have "map_of df d = Some v" using True by simp
  then show ?thesis
    using True group_of_unique [OF True v] by (simp add: handle_duplicates_def group_mean_single)
next
  case False
  then show ?thesis
    using groupby_mean_map_of [OF assms] by (simp add: handle_duplicates_def)
qed

lemma group_of_nonempty: "group_of df d \<noteq> [] \<Longrightarrow> d \<in> fst ` set df"
  by (auto simp: group_of_def filter_empty_conv)

text \<open>
  Claim C5, as amended. The result of \<open>handle_duplicates\<close> has pairwise different
  dates, the dates of the input; the point of each date holds the mean of the values
  the input has at that date, which for a date with one point is that point's value. A
  frame without a repeated date is returned as it is. A frame with a repeated date comes
  back sorted by date, so the order of the distinct dates is the input's when the input
  is in ascending order of date.
\<close>

theorem C5_deduplicate:
  "distinct (map fst (handle_duplicates df)) \<and>
   fst ` set (handle_duplicates df) = fst ` set df \<and>
   (\<forall>d\<in>fst ` set df. map_of (handle_duplicates df) d = Some (group_mean (group_of df d))) \<and>
   (\<forall>d v. group_of df d = [v] \<longrightarrow> map_of (handle_duplicates df) d = Some v) \<and>
   (distinct (map fst df) \<longrightarrow> handle_duplicates df = df) \<and>
   (\<not> distinct (map fst df) \<longrightarrow> map fst (handle_duplicates df) = sort (remdups (map fst df))) \<and>
   (sorted (map fst df) \<longrightarrow> map fst (handle_duplicates df) = dates_in_order df)"
proof (intro conjI)
  show "distinct (map fst (handle_duplicates df))"
    by (simp add: handle_duplicates_def groupby_mean_keys)
  show "fst ` set (handle_duplicates df) = fst ` set df"
  proof (cases "distinct (map fst df)")
    case True
    then show ?thesis by (simp add: handle_duplicates_def)
  next
    case False
    have "set (map fst (groupby_mean df)) = set (map fst df)"
      unfolding groupby_mean_keys by simp
    then show ?thesis using False by (simp add: handle_duplicates_def)
  qed
  show "\<forall>d\<in>fst ` set df. map_of (handle_duplicates df) d = Some (group_mean (group_of df d))"
    using handle_duplicates_map_of by blast
  show "\<forall>d v. group_of df d = [v] \<longrightarrow> map_of (handle_duplicates df) d = Some v"
  proof (intro allI impI)
    fix d v assume g: "group_of df d = [v]"
    then have "d \<in> fst ` set df" using group_of_nonempty [of df d] by simp
    from handle_duplicates_map_of [OF this] show "map_of (handle_duplicates df) d = Some v"
      by (simp add: g group_mean_single)
  qed
  show "distinct (map fst df) \<longrightarrow> handle_duplicates df = df"
    by (simp add: handle_duplicates_def)
  show "\<not> distinct (map fst df) \<longrightarrow> map fst (handle_duplicates df) = sort (remdups (map fst df))"
    by (simp add: handle_duplicates_def groupby_mean_keys)
  show "sorted (map fst df) \<longrightarrow> map fst (handle_duplicates df) = dates_in_order df"
  proof
    assume s: "sorted (map fst df)"
    show "map fst (handle_duplicates df) = dates_in_order df"
    proof (cases "distinct (map fst df)")
      case True
      then show ?thesis
        by (simp add: handle_duplicates_def dates_in_order_def first_appearance_unique)
    next
      case False
      then show ?thesis
        using first_appearance_of_sorted [OF s]
        by (simp add: handle_duplicates_def dates_in_order_def groupby_mean_keys)
    qed
  qed
qed

lemma ev_dedup_sorted: "handle_duplicates [(1, 2), (3, 5), (3, 7)] = [(1, 2), (3, 6)]"
  by (simp add: handle_duplicates_def groupby_mean_def group_of_def group_mean_def)

theorem C5_deduplicate_witness:
  "handle_duplicates [(1, 2), (3, 5), (3, 7)] = [(1, 2), (3, 6)] \<and>
   sorted (map fst [(1::int, 2::real), (3, 5), (3, 7)]) \<and>
   dates_in_order [(1, 2), (3, 5), (3, 7)] = [1, 3] \<and>
   group_mean (group_of [(1, 2), (3, 5), (3, 7)] 3) = 6"
  using C5_deduplicate [of "[(1, 2), (3, 5), (3, 7)]"] ev_dedup_sorted
  by (simp add: dates_in_order_def group_of_def group_mean_def)

text \<open>
  The claim as stated fails on an input that is not in ascending order: the date 3 comes
  before the date 1 in the input and after it in the result.
\<close>

theorem C5_counterexample:
  "handle_duplicates [(3, 5), (3, 7), (1, 2)] = [(1, 2), (3, 6)] \<and>
   dates_in_order [(3, 5), (3, 7), (1, 2)] = [3, 1] \<and>
   map fst (handle_duplicates [(3, 5), (3, 7), (1, 2)]) \<noteq> dates_in_order [(3, 5), (3, 7), (1, 2)]"
  by (simp add: handle_duplicates_def groupby_mean_def group_of_def group_mean_def
        dates_in_order_def)

section \<open>The complete calendar and its filling\<close>

lemma length_ffill_from: "length (ffill_from p xs) = length xs"
  by (induction p xs rule: ffill_from.induct) simp_all

lemma length_bfill: "length (bfill xs) = length xs"
  by (induction xs rule: bfill.induct) (auto split: list.splits)

lemma length_interpolate_linear: "length (interpolate_linear xs) = length xs"
  by (simp add: interpolate_linear_def)

lemma length_fillna_mean: "length (fillna_mean xs) = length xs"
  by (simp add: fillna_mean_def)

lemma ffill_from_keeps:
  "k < length xs \<Longrightarrow> xs ! k = Some v \<Longrightarrow> ffill_from p xs ! k = Some v"
proof (induction p xs arbitrary: k rule: ffill_from.induct)
  case (1 prev)
  then show ?case by simp
next
  case (2 prev xs)
  then show ?case by (cases k) simp_all
next
  case (3 prev w xs)
  then show ?case by (cases k) simp_all
qed

lemma bfill_keeps:
  "k < length xs \<Longrightarrow> xs ! k = Some v \<Longrightarrow> bfill xs ! k = Some v"
proof (induction xs arbitrary: k rule: bfill.induct)
  case 1
  then show ?case by simp
next
  case (2 w xs)
  then show ?case by (cases k) simp_all
next
  case (3 xs)
  show ?case
  proof (cases k)
    case 0
    then show ?thesis using 3 by simp
  next
    case (Suc k')
    then have k': "k' < length xs" "xs ! k' = Some v" using 3 by simp_all
    then have ih: "bfill xs ! k' = Some v" using 3 by simp
    from k' have "bfill xs \<noteq> []" using length_bfill [of xs] by auto
    then obtain y ys where "bfill xs = y # ys" by (cases "bfill xs") auto
    then show ?thesis using ih Suc by simp
  qed
qed

lemma interpolate_linear_keeps:
  "k < length xs \<Longrightarrow> xs ! k = Some v \<Longrightarrow> interpolate_linear xs ! k = Some v"
  by (simp add: interpolate_linear_def interp_at_def)

lemma fillna_mean_keeps:
  "k < length xs \<Longrightarrow> xs ! k = Some v \<Longrightarrow> fillna_mean xs ! k = Some v"
  by (simp add: fillna_mean_def)

lemma bfill_head:
  "\<exists>x\<in>set xs. x \<noteq> None \<Longrightarrow> \<exists>v ys. bfill xs = Some v # ys"
proof (induction xs rule: bfill.induct)
  case 1
  then show ?case by simp
next
  case (2 w xs)
  show ?case by simp
next
  case (3 xs)
  then have "\<exists>x\<in>set xs. x \<noteq> None" by simp
  with 3 obtain v ys where "bfill xs = Some v # ys" by blast
  then show ?case by simp
qed

lemma ffill_from_Some_total: "None \<notin> set (ffill_from (Some p) xs)"
proof (induction "Some p" xs arbitrary: p rule: ffill_from.induct)
  case 1
  show ?case by simp
next
  case (2 xs)
  then show ?case by simp
next
  case (3 w xs)
  then show ?case by simp
qed

lemma post_pass_total:
  assumes "\<exists>x\<in>set xs. x \<noteq> None"
  shows "None \<notin> set (ffill (bfill xs))"
proof -
  from bfill_head [OF assms] obtain v ys where "bfill xs = Some v # ys" by blast
  then show ?thesis
    using ffill_from_Some_total [of v ys] by (simp add: ffill_def)
qed

lemma length_post_pass: "length (ffill (bfill xs)) = length xs"
  by (simp add: ffill_def length_ffill_from length_bfill)

lemma post_pass_keeps:
  "k < length xs \<Longrightarrow> xs ! k = Some v \<Longrightarrow> ffill (bfill xs) ! k = Some v"
  by (simp add: ffill_def ffill_from_keeps bfill_keeps length_bfill)

lemma apply_fill_method_cases:
  assumes "fill_method \<in> {''ffill'', ''bfill'', ''linear'', ''mean''}"
  shows "\<exists>filled. apply_fill_method fill_method col = Inr filled \<and> length filled = length col \<and>
           (\<forall>k v. k < length col \<and> col ! k = Some v \<longrightarrow> filled ! k = Some v)"
  using assms
  by (auto simp: apply_fill_method_def ffill_def length_ffill_from length_bfill
        length_interpolate_linear length_fillna_mean ffill_from_keeps bfill_keeps
        interpolate_linear_keeps fillna_mean_keeps)

text \<open>A column without a known value stays as it is under every method and under
  the two last passes.\<close>

lemma ffill_from_unknown: "\<forall>x\<in>set xs. x = None \<Longrightarrow> ffill_from None xs = xs"
  by (induction xs) simp_all

lemma bfill_unknown: "\<forall>x\<in>set xs. x = None \<Longrightarrow> bfill xs = xs"
proof (induction xs)
  case Nil
  show ?case by simp
next
  case (Cons x xs)
  then have x: "x = None" and ih: "bfill xs = xs" by simp_all
  have "bfill (x # xs) = (case xs of [] \<Rightarrow> [None] | y # ys \<Rightarrow> y # y # ys)"
    by (simp only: x bfill.simps ih)
  also have "\<dots> = x # xs"
    using Cons.prems by (cases xs) (simp_all add: x)
  finally show ?case .
qed

lemma interpolate_linear_unknown:
  assumes "\<forall>x\<in>set xs. x = None"
  shows "interpolate_linear xs = xs"
proof (rule nth_equalityI)
  show "length (interpolate_linear xs) = length xs"
    by (rule length_interpolate_linear)
  fix k assume "k < length (interpolate_linear xs)"
  then have k: "k < length xs" by (simp add: length_interpolate_linear)
  have none: "xs ! i = None" if "i < length xs" for i
    using assms that by simp
  have "prev_valid xs k = None"
    unfolding prev_valid_def using k none by (simp add: find_None_iff)
  then have "interp_at xs k = None"
    by (simp add: interp_at_def none [OF k])
  then show "interpolate_linear xs ! k = xs ! k"
    using k by (simp add: interpolate_linear_def none)
qed

lemma valid_values_unknown: "\<forall>x\<in>set xs. x = None \<Longrightarrow> valid_values xs = []"
  by (induction xs) (simp_all add: valid_values_def)

lemma fillna_mean_unknown: "\<forall>x\<in>set xs. x = None \<Longrightarrow> fillna_mean xs = xs"
  by (simp add: fillna_mean_def valid_values_unknown)

lemma apply_fill_method_unknown:
  assumes "fill_method \<in> {''ffill'', ''bfill'', ''linear'', ''mean''}"
    and "\<forall>x\<in>set col. x = None"
  shows "apply_fill_method fill_method col = Inr col"
  using assms
  by (auto simp: apply_fill_method_def ffill_def ffill_from_unknown bfill_unknown
        interpolate_linear_unknown fillna_mean_unknown)

lemma post_pass_unknown: "\<forall>x\<in>set xs. x = None \<Longrightarrow> ffill (bfill xs) = xs"
  by (simp add: ffill_def bfill_unknown ffill_from_unknown)

text \<open>The method \<^verbatim>\<open>mean\<close> puts the mean of the known values into every other cell.\<close>

lemma valid_values_empty: "valid_values xs = [] \<longleftrightarrow> (\<forall>x\<in>set xs. x = None)"
  by (induction xs) (auto simp: valid_values_def split: option.splits)

lemma fillna_mean_fills:
  "k < length xs \<Longrightarrow> xs ! k = None \<Longrightarrow> valid_values xs \<noteq> [] \<Longrightarrow>
   fillna_mean xs ! k = Some (group_mean (valid_values xs))"
  by (simp add: fillna_mean_def)

lemma index_bounds:
  assumes "df \<noteq> []"
  shows "Min (set (map fst df)) \<in> fst ` set df" "Max (set (map fst df)) \<in> fst ` set df"
    "d \<in> fst ` set df \<Longrightarrow> Min (set (map fst df)) \<le> d \<and> d \<le> Max (set (map fst df))"
proof -
  have ne: "set (map fst df) \<noteq> {}" using assms by simp
  have fin: "finite (set (map fst df))" by simp
  show "Min (set (map fst df)) \<in> fst ` set df"
    using Min_in [OF fin ne] by simp
  show "Max (set (map fst df)) \<in> fst ` set df"
    using Max_in [OF fin ne] by simp
  show "d \<in> fst ` set df \<Longrightarrow> Min (set (map fst df)) \<le> d \<and> d \<le> Max (set (map fst df))"
    using Min_le [OF fin, of d] Max_ge [OF fin, of d] by simp
qed

lemma reindex_nth:
  fixes lo hi :: int
  assumes "lo \<le> t" "t \<le> hi"
  shows "nat (t - lo) < length (reindex df [lo..hi])"
    "reindex df [lo..hi] ! nat (t - lo) = (case map_of df t of None \<Rightarrow> None | Some cell \<Rightarrow> cell)"
proof -
  have 1: "nat (t - lo) < length [lo..hi]" using assms by simp
  have 2: "[lo..hi] ! nat (t - lo) = t" using assms by simp
  show "nat (t - lo) < length (reindex df [lo..hi])"
    using 1 by (simp add: reindex_def del: length_upto)
  show "reindex df [lo..hi] ! nat (t - lo) = (case map_of df t of None \<Rightarrow> None | Some cell \<Rightarrow> cell)"
    using 1 2 by (simp add: reindex_def del: length_upto nth_upto)
qed

lemma length_reindex: "length (reindex df ds) = length ds"
  by (simp add: reindex_def)

lemma reindex_unknown:
  assumes "\<forall>r\<in>set df. snd r = None"
  shows "\<forall>x\<in>set (reindex df ds). x = None"
proof -
  have "(case map_of df d of None \<Rightarrow> None | Some cell \<Rightarrow> cell) = None" for d
  proof (cases "map_of df d")
    case None
    then show ?thesis by simp
  next
    case (Some cell)
    then have "(d, cell) \<in> set df" by (rule map_of_SomeD)
    then have "cell = None" using assms by force
    then show ?thesis using Some by simp
  qed
  then show ?thesis by (simp add: reindex_def)
qed

lemma map_of_zip_upto:
  fixes lo hi :: int
  assumes "lo \<le> t" "t \<le> hi" "length ys = length [lo..hi]"
  shows "map_of (zip [lo..hi] ys) t = Some (ys ! nat (t - lo))"
proof -
  have "map_of (zip [lo..hi] ys) ([lo..hi] ! nat (t - lo)) = Some (ys ! nat (t - lo))"
    by (rule map_of_zip_nth) (use assms in \<open>simp_all del: length_upto\<close>, use assms in simp)
  then show ?thesis using assms by simp
qed

lemma ev_fill_edges:
  "resample_and_fill [(2, None), (4, Some 8), (5, None)] ''ffill''
     = Inr [(2, Some 8), (3, Some 8), (4, Some 8), (5, Some 8)]"
  by (simp add: resample_and_fill_def reindex_def apply_fill_method_def ffill_def
        upto_rec1 Let_def)

text \<open>
  Claim C6, as amended. For a frame that is not empty and has no repeated date, and for
  each of the four fill methods, \<open>resample_and_fill\<close> returns, and the dates of the
  result are the days from the smallest to the largest date of the input, each once and
  in ascending order. When the column has a known value, no value is \<^verbatim>\<open>NaN\<close> after the
  two last passes (\<^verbatim>\<open>bfill\<close>, then \<^verbatim>\<open>ffill\<close>); a column without any known value stays
  without one. The known values of the input are kept, and the method \<^verbatim>\<open>mean\<close> gives
  every other day the mean of the known values.
\<close>

theorem C6_gap_closure:
  assumes "df \<noteq> []" and "distinct (map fst df)"
    and "fill_method \<in> {''ffill'', ''bfill'', ''linear'', ''mean''}"
  shows "\<exists>out. resample_and_fill df fill_method = Inr out \<and>
           map fst out = [Min (fst ` set df) .. Max (fst ` set df)] \<and>
           ((\<exists>r\<in>set df. snd r \<noteq> None) \<longrightarrow> (\<forall>r\<in>set out. snd r \<noteq> None)) \<and>
           ((\<forall>r\<in>set df. snd r = None) \<longrightarrow> (\<forall>r\<in>set out. snd r = None)) \<and>
           (\<forall>d v. map_of df d = Some (Some v) \<longrightarrow> map_of out d = Some (Some v)) \<and>
           (fill_method = ''mean'' \<and> (\<exists>r\<in>set df. snd r \<noteq> None) \<longrightarrow>
              (\<forall>d. Min (fst ` set df) \<le> d \<and> d \<le> Max (fst ` set df) \<and>
                    (\<forall>v. map_of df d \<noteq> Some (Some v)) \<longrightarrow>
                 map_of out d = Some (Some (group_mean (valid_values
                   (reindex df [Min (fst ` set df) .. Max (fst ` set df)]))))))"
proof -
  let ?lo = "Min (set (map fst df))" and ?hi = "Max (set (map fst df))"
  let ?col = "reindex df [?lo..?hi]"
  from apply_fill_method_cases [OF assms(3), of ?col] obtain filled where
    f: "apply_fill_method fill_method ?col = Inr filled" and
    len: "length filled = length ?col" and
    keep: "\<And>k v. k < length ?col \<Longrightarrow> ?col ! k = Some v \<Longrightarrow> filled ! k = Some v"
    by blast
  let ?vals = "ffill (bfill filled)"
  let ?out = "zip [?lo..?hi] ?vals"
  have res: "resample_and_fill df fill_method = Inr ?out"
    using assms(1,2) f by (simp add: resample_and_fill_def Let_def)
  have len2: "length ?vals = length [?lo..?hi]"
    using len by (simp add: length_post_pass length_reindex)
  have idx: "map fst ?out = [?lo..?hi]"
    using len2 by (simp del: length_upto)
  have snd_out: "map snd ?out = ?vals"
    using len2 by (simp del: length_upto)
  have cell: "?col ! nat (d - ?lo) = Some v \<and> nat (d - ?lo) < length ?col \<and> ?lo \<le> d \<and> d \<le> ?hi"
    if "map_of df d = Some (Some v)" for d v
  proof -
    from that have "d \<in> fst ` set df"
      by (auto dest: map_of_SomeD intro: rev_image_eqI)
    from index_bounds(3) [OF assms(1) this] have b: "?lo \<le> d" "d \<le> ?hi" by simp_all
    show ?thesis
      using reindex_nth [OF b, of df] that b by simp
  qed
  have kept: "map_of ?out d = Some (Some v)" if "map_of df d = Some (Some v)" for d v
  proof -
    from cell [OF that] have c: "?col ! nat (d - ?lo) = Some v" "nat (d - ?lo) < length ?col"
      and b: "?lo \<le> d" "d \<le> ?hi" by simp_all
    have "filled ! nat (d - ?lo) = Some v" using keep c by simp
    then have "?vals ! nat (d - ?lo) = Some v"
      using c(2) len by (intro post_pass_keeps) simp_all
    then show ?thesis
      using map_of_zip_upto [OF b len2] by simp
  qed
  have total: "\<forall>r\<in>set ?out. snd r \<noteq> None" if "\<exists>r\<in>set df. snd r \<noteq> None"
  proof -
    from that obtain d v where "(d, Some v) \<in> set df" by force
    then have "map_of df d = Some (Some v)" using assms(2) by simp
    from cell [OF this] have "?col ! nat (d - ?lo) = Some v" "nat (d - ?lo) < length ?col"
      by simp_all
    then have "filled ! nat (d - ?lo) = Some v" "nat (d - ?lo) < length filled"
      using keep len by simp_all
    then have "\<exists>x\<in>set filled. x \<noteq> None"
      by (metis nth_mem option.distinct(1))
    from post_pass_total [OF this] have "None \<notin> set ?vals" .
    then show ?thesis
      by (metis set_zip_rightD prod.collapse)
  qed
  have unknown: "\<forall>r\<in>set ?out. snd r = None" if "\<forall>r\<in>set df. snd r = None"
  proof -
    have u: "\<forall>x\<in>set ?col. x = None" by (rule reindex_unknown [OF that])
    from apply_fill_method_unknown [OF assms(3) u] f have "filled = ?col" by simp
    then have "?vals = ?col" using post_pass_unknown [OF u] by simp
    then have "\<forall>x\<in>set ?vals. x = None" using u by simp
    then show ?thesis
      by (metis set_zip_rightD prod.collapse)
  qed
  have mean: "map_of ?out d = Some (Some (group_mean (valid_values ?col)))"
    if m: "fill_method = ''mean''" and k: "\<exists>r\<in>set df. snd r \<noteq> None"
      and b: "?lo \<le> d" "d \<le> ?hi" and n: "\<forall>v. map_of df d \<noteq> Some (Some v)" for d
  proof -
    have fm: "filled = fillna_mean ?col"
      using f m by (simp add: apply_fill_method_def)
    have c: "?col ! nat (d - ?lo) = None" "nat (d - ?lo) < length ?col"
      using reindex_nth [OF b, of df] n by (auto split: option.splits)
    from k obtain d0 v where "(d0, Some v) \<in> set df" by force
    then have "map_of df d0 = Some (Some v)" using assms(2) by simp
    from cell [OF this] have "Some v \<in> set ?col" by (metis nth_mem)
    then have "valid_values ?col \<noteq> []" by (auto simp: valid_values_empty)
    then have "filled ! nat (d - ?lo) = Some (group_mean (valid_values ?col))"
      unfolding fm using c by (intro fillna_mean_fills) simp_all
    then have "?vals ! nat (d - ?lo) = Some (group_mean (valid_values ?col))"
      using c(2) len by (intro post_pass_keeps) simp_all
    then show ?thesis
      using map_of_zip_upto [OF b len2] by simp
  qed
  show ?thesis
    using res idx total unknown kept mean by (simp del: length_upto)
qed

theorem C6_gap_closure_witness:
  "resample_and_fill [(2, None), (4, Some 8), (5, None)] ''ffill''
     = Inr [(2, Some 8), (3, Some 8), (4, Some 8), (5, Some 8)] \<and>
   [Min (fst ` set [(2::int, None::real option), (4, Some 8), (5, None)]) ..
    Max (fst ` set [(2::int, None::real option), (4, Some 8), (5, None)])] = [2, 3, 4, 5]"
  using C6_gap_closure [of "[(2, None), (4, Some 8), (5, None)]" "''ffill''"] ev_fill_edges
  by (simp add: upto_rec1)

text \<open>
  The claim as stated fails on a column without a known value: nothing can be filled in,
  before or after the two last passes.
\<close>

theorem C6_counterexample:
  "resample_and_fill [(1, None), (3, None)] ''linear'' = Inr [(1, None), (2, None), (3, None)]"
  by (simp add: resample_and_fill_def reindex_def apply_fill_method_def ffill_def
        interpolate_linear_def interp_at_def prev_valid_def upto_rec1 upt_rec Let_def)

section \<open>Linear interpolation\<close>

lemma find_rev_upt:
  "i < k \<Longrightarrow> P i \<Longrightarrow> (\<forall>m. i < m \<and> m < k \<longrightarrow> \<not> P m) \<Longrightarrow> find P (rev [0..<k]) = Some i"
proof (induction k)
  case 0
  then show ?case by simp
next
  case (Suc k)
  show ?case
  proof (cases "i = k")
    case True
    then show ?thesis using Suc.prems by simp
  next
    case False
    then have "i < k" using Suc.prems by simp
    moreover have "\<not> P k" using Suc.prems \<open>i < k\<close> by simp
    ultimately show ?thesis using Suc by simp
  qed
qed

lemma find_upt:
  "a \<le> j \<Longrightarrow> j < n \<Longrightarrow> P j \<Longrightarrow> (\<forall>m. a \<le> m \<and> m < j \<longrightarrow> \<not> P m) \<Longrightarrow> find P [a..<n] = Some j"
proof (induction "j - a" arbitrary: a)
  case 0
  then have "a = j" by simp
  then show ?case using 0 by (simp add: upt_conv_Cons)
next
  case (Suc d)
  then have lt: "a < j" "a < n" by simp_all
  then have "\<not> P a" using Suc.prems by simp
  moreover have "find P [Suc a..<n] = Some j"
    using Suc.hyps(1) [of "Suc a"] Suc.hyps(2) Suc.prems lt by simp
  ultimately show ?case using lt by (simp add: upt_conv_Cons)
qed

lemma interp_at_between:
  assumes "i < k" "k < j" "j < length xs"
    and "xs ! i = Some v1" "xs ! j = Some v2"
    and "\<forall>m. i < m \<and> m < j \<longrightarrow> xs ! m = None"
  shows "interp_at xs k = Some (v1 + (v2 - v1) * (real k - real i) / (real j - real i))"
proof -
  have k: "xs ! k = None" using assms by simp
  have p: "prev_valid xs k = Some i"
    unfolding prev_valid_def
    by (rule find_rev_upt) (use assms in auto)
  have n: "next_valid xs k = Some j"
    unfolding next_valid_def
    by (rule find_upt) (use assms in auto)
  show ?thesis
    by (simp add: interp_at_def k p n assms(4,5))
qed


lemma ev_interp: "interpolate_linear [Some 10, None, None, Some 40, None, Some 0]
  = [Some 10, Some 20, Some 30, Some 40, Some 20, Some 0]"
  by (simp add: interpolate_linear_def interp_at_def prev_valid_def next_valid_def upt_rec)

lemma ev_fill:
  "resample_and_fill [(1, Some 10), (4, Some 40), (5, None), (6, Some 0)] ''linear''
     = Inr [(1, Some 10), (2, Some 20), (3, Some 30), (4, Some 40), (5, Some 20), (6, Some 0)]"
  by (simp add: resample_and_fill_def reindex_def apply_fill_method_def ev_interp ffill_def
        upto_rec1 Let_def)

text \<open>
  Claim C7. With the method \<^verbatim>\<open>linear\<close>, a day \<open>t\<close> strictly between two dates
  \<open>t1 < t2\<close> of the input with known values \<open>v1\<close> and \<open>v2\<close> and no known value between
  them gets the value \<open>v1 + (v2 - v1) * (t - t1) / (t2 - t1)\<close>, and the two last passes
  do not change it. The rows of the completed frame are one day apart, so that the
  interpolation by position that pandas performs is the interpolation in time. The
  equality is exact over the reals.
\<close>

theorem C7_linear_interpolation:
  assumes "distinct (map fst df)"
    and "map_of df t1 = Some (Some v1)" and "map_of df t2 = Some (Some v2)"
    and "t1 < t" and "t < t2"
    and "\<forall>d v. t1 < d \<and> d < t2 \<longrightarrow> map_of df d \<noteq> Some (Some v)"
  shows "\<exists>out. resample_and_fill df ''linear'' = Inr out \<and>
           map_of out t =
             Some (Some (v1 + (v2 - v1) * real_of_int (t - t1) / real_of_int (t2 - t1)))"
proof -
  let ?lo = "Min (set (map fst df))" and ?hi = "Max (set (map fst df))"
  let ?col = "reindex df [?lo..?hi]"
  have ne: "df \<noteq> []" using assms(2) by auto
  have in1: "t1 \<in> fst ` set df" and in2: "t2 \<in> fst ` set df"
    using assms(2,3) by (auto dest: map_of_SomeD intro: rev_image_eqI)
  have b1: "?lo \<le> t1" and b2: "t2 \<le> ?hi"
    using index_bounds(3) [OF ne in1] index_bounds(3) [OF ne in2] by simp_all
  let ?i = "nat (t1 - ?lo)" and ?k = "nat (t - ?lo)" and ?j = "nat (t2 - ?lo)"
  have ord: "?i < ?k" "?k < ?j" using assms(4,5) b1 by simp_all
  have jlen: "?j < length ?col"
    using b1 b2 assms(4,5) by (simp add: length_reindex)
  have ci: "?col ! ?i = Some v1"
    using reindex_nth(2) [of ?lo t1 ?hi df] b1 b2 assms(2,4,5) by simp
  have cj: "?col ! ?j = Some v2"
    using reindex_nth(2) [of ?lo t2 ?hi df] b1 b2 assms(3,4,5) by simp
  have gap: "\<forall>m. ?i < m \<and> m < ?j \<longrightarrow> ?col ! m = None"
  proof (intro allI impI)
    fix m assume m: "?i < m \<and> m < ?j"
    let ?d = "?lo + int m"
    have d: "t1 < ?d" "?d < t2" using m b1 by linarith+
    then have none: "(case map_of df ?d of None \<Rightarrow> None | Some cell \<Rightarrow> cell) = None"
      using assms(6) by (auto split: option.splits)
    have "?col ! nat (?d - ?lo) = (case map_of df ?d of None \<Rightarrow> None | Some cell \<Rightarrow> cell)"
      by (rule reindex_nth(2)) (use d b1 b2 in linarith)+
    then show "?col ! m = None" using none by simp
  qed
  have ia: "interp_at ?col ?k =
      Some (v1 + (v2 - v1) * (real ?k - real ?i) / (real ?j - real ?i))"
    by (rule interp_at_between [OF ord jlen ci cj gap])
  have r1: "real ?k - real ?i = real_of_int (t - t1)"
    using b1 assms(4) by simp
  have r2: "real ?j - real ?i = real_of_int (t2 - t1)"
    using b1 assms(4,5) by simp
  have klen: "?k < length ?col" using ord(2) jlen by (rule less_trans)
  have il: "interpolate_linear ?col ! ?k =
      Some (v1 + (v2 - v1) * real_of_int (t - t1) / real_of_int (t2 - t1))"
    using klen ia r1 r2 by (simp add: interpolate_linear_def del: length_upto)
  let ?filled = "interpolate_linear ?col"
  have pp: "ffill (bfill ?filled) ! ?k =
      Some (v1 + (v2 - v1) * real_of_int (t - t1) / real_of_int (t2 - t1))"
    by (rule post_pass_keeps) (use klen il in \<open>simp_all add: length_interpolate_linear\<close>)
  let ?out = "zip [?lo..?hi] (ffill (bfill ?filled))"
  have res: "resample_and_fill df ''linear'' = Inr ?out"
    using ne assms(1) by (simp add: resample_and_fill_def apply_fill_method_def Let_def)
  have "map_of ?out t = Some (ffill (bfill ?filled) ! ?k)"
    by (rule map_of_zip_upto)
       (use b1 b2 assms(4,5) in
         \<open>simp_all add: length_post_pass length_interpolate_linear length_reindex\<close>)
  with pp res show ?thesis by simp
qed

theorem C7_linear_interpolation_witness:
  "resample_and_fill [(1, Some 10), (4, Some 40), (5, None), (6, Some 0)] ''linear''
     = Inr [(1, Some 10), (2, Some 20), (3, Some 30), (4, Some 40), (5, Some 20), (6, Some 0)] \<and>
   (10::real) + (40 - 10) * real_of_int (3 - 1) / real_of_int (4 - 1) = 30 \<and>
   (40::real) + (0 - 40) * real_of_int (5 - 4) / real_of_int (6 - 4) = 20"
  using C7_linear_interpolation [of "[(1, Some 10), (4, Some 40), (5, None), (6, Some 0)]" 1 10 4 40 3]
    ev_fill
  by simp

end
